theory Spec2Isabelle
  imports Complex_Main "HOL-Library.Word" "HOL-Library.Sublist"
begin

unbundle bit_operations_syntax

section \<open>Bytes and Python integers\<close>

text \<open>
  A Python \<open>bytes\<close> or \<open>bytearray\<close> object is a list of 8-bit words; reading one
  element gives a Python integer (\<open>uint\<close>). Python integers are unbounded and are
  modelled by \<open>int\<close>.
\<close>

type_synonym byte = "8 word"

datatype error = ValueError | IndexError

section \<open>utils.py: crc16_ccitt\<close>

text \<open>
  One pass of the inner loop \<open>for _ in range(8)\<close>: test bit 15, shift left, mask to
  16 bits, and XOR the polynomial in when the bit was set.
\<close>

definition crc_shift :: "int \<Rightarrow> int \<Rightarrow> int" where
  "crc_shift poly crc =
     (if crc AND 0x8000 \<noteq> 0 then ((push_bit 1 crc) AND 0xFFFF) XOR poly
      else (push_bit 1 crc) AND 0xFFFF)"

text \<open>The body of the outer loop \<open>for b in data\<close>.\<close>

definition crc_byte :: "int \<Rightarrow> int \<Rightarrow> byte \<Rightarrow> int" where
  "crc_byte poly crc b = ((crc_shift poly) ^^ 8) (crc XOR push_bit 8 (uint b))"

definition crc16_ccitt :: "byte list \<Rightarrow> int \<Rightarrow> int \<Rightarrow> int" where
  "crc16_ccitt data poly init_val = (foldl (crc_byte poly) init_val data) AND 0xFFFF"

text \<open>The call with the default arguments \<open>poly = 0x1021\<close>, \<open>init_val = 0xFFFF\<close>.\<close>

definition crc16 :: "byte list \<Rightarrow> int" where
  "crc16 data = crc16_ccitt data 0x1021 0xFFFF"

subsection \<open>CRC-16/CCITT-FALSE as the specification words it\<close>

text \<open>
  The specification's description, on a 16-bit accumulator: XOR the byte into bits 8 to
  15, then eight rounds of: if bit 15 is set, shift left and XOR with 0x1021, else shift
  left. The accumulator starts at 0xFFFF. The 16-bit word type does the masking.
\<close>

definition spec_round :: "16 word \<Rightarrow> 16 word" where
  "spec_round w = (if bit w 15 then push_bit 1 w XOR 0x1021 else push_bit 1 w)"

definition spec_byte :: "16 word \<Rightarrow> byte \<Rightarrow> 16 word" where
  "spec_byte w b = (spec_round ^^ 8) (w XOR push_bit 8 (ucast b))"

definition crc16_ccitt_false :: "byte list \<Rightarrow> 16 word" where
  "crc16_ccitt_false data = foldl spec_byte 0xFFFF data"

section \<open>struct.pack and struct.unpack, little-endian unsigned 16 bit\<close>

text \<open>
  \<open>struct.pack('<H', v)\<close> raises \<open>struct.error\<close> unless \<open>0 \<le> v \<le> 65535\<close>; every
  call in the sources passes a value masked with \<open>0xFFFF\<close>, so the model takes the value
  modulo \<open>2 ^ 16\<close> through the two byte conversions.
\<close>

definition pack_H :: "int \<Rightarrow> byte list" where
  "pack_H v = [word_of_int v, word_of_int (drop_bit 8 v)]"

definition unpack_H :: "byte list \<Rightarrow> int" where
  "unpack_H bs = uint (bs ! 0) + 256 * uint (bs ! 1)"

section \<open>virtual_sender.py: make_frame\<close>

definition HEADER :: "byte list" where
  "HEADER = [0xAA, 0x55]"

definition HEADER_LEN :: nat where
  "HEADER_LEN = 2"

text \<open>The loop building the payload: four bytes per \<open>(sid, adc)\<close> pair.\<close>

fun pack_samples :: "(int \<times> int) list \<Rightarrow> byte list" where
  "pack_samples [] = []"
| "pack_samples ((sid, adc) # rest) =
     pack_H (sid AND 0xFFFF) @ pack_H (adc AND 0xFFFF) @ pack_samples rest"

text \<open>
  \<open>bytes([length])\<close> raises \<open>ValueError\<close> when \<open>length\<close> is above 255: this is the
  only way \<open>make_frame\<close> fails.
\<close>

definition make_frame :: "(int \<times> int) list \<Rightarrow> error + byte list" where
  "make_frame samples =
     (let payload = pack_samples samples;
          length_field = length payload;
          typ = (0x01 :: byte)
      in if 255 < length_field then Inl ValueError
         else
           let header_and_len_type_payload = [of_nat length_field] @ [typ] @ payload;
               crc = crc16 header_and_len_type_payload
           in Inr (HEADER @ header_and_len_type_payload @ pack_H crc))"

section \<open>parser.py: Parser\<close>

record Parser =
  buffer :: "byte list"

definition Parser_init :: Parser where
  "Parser_init = \<lparr> buffer = [] \<rparr>"

text \<open>
  One entry of the list \<open>feed\<close> returns. A decoded sample carries \<open>sample_id\<close>, \<open>adc\<close>
  and \<open>raw_frame\<close>; a frame of another type carries \<open>type\<close> and \<open>raw_frame\<close> (its
  \<open>sample_id\<close> and \<open>adc\<close> are \<open>None\<close>).
\<close>

datatype parsed =
    Sample (sample_id: int) (adc: int) (raw_frame: "byte list")
  | Unknown (frame_type: int) (raw_frame: "byte list")

text \<open>\<open>bytearray.find(sub)\<close>: the least index where \<open>sub\<close> starts, \<open>None\<close> for \<open>-1\<close>.\<close>

fun find_bytes :: "byte list \<Rightarrow> byte list \<Rightarrow> nat option" where
  "find_bytes sub [] = (if sub = [] then Some 0 else None)"
| "find_bytes sub (x # xs) =
     (if take (length sub) (x # xs) = sub then Some 0
      else map_option Suc (find_bytes sub xs))"

text \<open>
  The loop \<open>for i in range(n)\<close> over the payload's complete 4-byte groups:
  \<open>struct.unpack_from('<HH', payload, i * 4)\<close>.
\<close>

definition decode_group :: "byte list \<Rightarrow> byte list \<Rightarrow> nat \<Rightarrow> parsed" where
  "decode_group frame payload i =
     (let off = i * 4
      in Sample (unpack_H (take 2 (drop off payload)))
                (unpack_H (take 2 (drop (off + 2) payload)))
                frame)"

definition decode_samples :: "byte list \<Rightarrow> byte list \<Rightarrow> parsed list" where
  "decode_samples frame payload =
     (let n = length payload div 4 in map (decode_group frame payload) [0..<n])"

text \<open>
  The \<open>while True\<close> loop of \<open>feed\<close>, on the buffer and the results so far. Each
  \<open>break\<close> returns; \<open>continue\<close> and the end of the body are the two recursive calls.
  The slices \<open>frame[-2:]\<close>, \<open>frame[2:-2]\<close> and \<open>frame[4:-2]\<close> are taken on a frame
  of \<open>total_len \<ge> 6\<close> bytes.
\<close>

function feed_loop :: "byte list \<Rightarrow> parsed list \<Rightarrow> byte list \<times> parsed list" where
  "feed_loop buf results =
     (if length buf < HEADER_LEN + 1 + 1 + 2 then (buf, results)
      else case find_bytes HEADER buf of
        None \<Rightarrow> ([], results)
      | Some idx \<Rightarrow>
          let buf1 = (if 0 < idx then drop idx buf else buf) in
          if length buf1 < 4 then (buf1, results)
          else
            let length_field = unat (buf1 ! 2);
                total_len = HEADER_LEN + 1 + 1 + length_field + 2
            in if length buf1 < total_len then (buf1, results)
               else
                 let frame = take total_len buf1;
                     crc_field = drop (length frame - 2) frame;
                     payload_for_crc = drop 2 (take (length frame - 2) frame);
                     calc = crc16 payload_for_crc;
                     recv_crc = unpack_H crc_field
                 in if calc \<noteq> recv_crc then feed_loop (drop 1 buf1) results
                    else
                      let typ = frame ! 3;
                          payload = drop 4 (take (length frame - 2) frame);
                          results1 =
                            (if typ = 0x01 then results @ decode_samples frame payload
                             else results @ [Unknown (uint typ) frame])
                      in feed_loop (drop total_len buf1) results1)"
  by pat_completeness auto
termination feed_loop
  apply (relation "measure (\<lambda>(buf, results). length buf)")
    apply (auto simp: HEADER_LEN_def split: if_splits)
  done

declare feed_loop.simps [simp del]

text \<open>
  \<open>Parser.feed\<close>: extend the buffer with the new bytes, run the loop on it with an
  empty result list, keep what the loop leaves in the buffer.
\<close>

definition feed :: "Parser \<Rightarrow> byte list \<Rightarrow> Parser \<times> parsed list" where
  "feed p data =
     (let (buf, results) = feed_loop (buffer p @ data) []
      in (p\<lparr>buffer := buf\<rparr>, results))"

text \<open>
  A sequence of \<open>feed\<close> calls on one parser, one call per chunk, with the returned
  lists concatenated in call order.
\<close>

fun feed_chunks :: "Parser \<Rightarrow> byte list list \<Rightarrow> Parser \<times> parsed list" where
  "feed_chunks p [] = (p, [])"
| "feed_chunks p (chunk # chunks) =
     (let (p1, out1) = feed p chunk;
          (p2, out2) = feed_chunks p1 chunks
      in (p2, out1 @ out2))"

text \<open>
  The wire format of parser.py's header comment,
  \<open>[0xAA][0x55][LEN][TYPE][PAYLOAD .. LEN bytes][CRC16, little-endian]\<close>, with the
  CRC taken over LEN, TYPE and PAYLOAD: the frame carrying a payload of at most 255
  bytes under a type byte.
\<close>

definition wire_frame :: "byte \<Rightarrow> byte list \<Rightarrow> byte list" where
  "wire_frame ty payload =
     HEADER @ [of_nat (length payload), ty] @ payload
       @ pack_H (crc16 ([of_nat (length payload), ty] @ payload))"

text \<open>
  What \<open>feed\<close> appends to its results for one validated frame of that format: the
  branch on \<open>typ\<close> after the CRC check.
\<close>

definition frame_output :: "byte \<Rightarrow> byte list \<Rightarrow> parsed list" where
  "frame_output ty payload =
     (if ty = 0x01 then decode_samples (wire_frame ty payload) payload
      else [Unknown (uint ty) (wire_frame ty payload)])"

section \<open>main.py: MainWindow\<close>

text \<open>
  The fields of \<open>MainWindow\<close> that \<open>on_bytes\<close>, \<open>detect_r_peaks\<close> and
  \<open>_estimate_bpm_from_wave\<close> read or write. Python floats are modelled by \<open>real\<close>:
  arithmetic is exact, so the theorems about timestamps, thresholds and rates hold up to
  the rounding of IEEE doubles; the comparisons and the index bookkeeping are as in the
  source. The widgets, the raw text preview kept in \<open>raw_buffer\<close> and the optional CSV
  row are not modelled: none of them feeds back into the fields below.
  \<open>plot_x\<close> and \<open>plot_y\<close> are \<open>deque(maxlen=pts)\<close>; \<open>sample_times\<close> is an unbounded
  \<open>deque\<close>.
\<close>

record MainWindow =
  sampling_rate :: int
  vref :: real
  r_threshold_ratio :: real
  min_r_interval :: real
  pts :: nat
  plot_x :: "real list"
  plot_y :: "int list"
  sample_times :: "real list"

text \<open>
  The fields as \<open>__init__\<close> sets them: 120 samples per second, a 5 second window
  (so \<open>pts = 600\<close>), \<open>vref = 5\<close>, threshold ratio and minimum interval 0.45, empty
  buffers.
\<close>

definition MainWindow_init :: MainWindow where
  "MainWindow_init =
     \<lparr> sampling_rate = 120, vref = 5, r_threshold_ratio = 0.45, min_r_interval = 0.45,
       pts = 600, plot_x = [], plot_y = [], sample_times = [] \<rparr>"

text \<open>\<open>deque.append\<close> on a deque with \<open>maxlen\<close>: the oldest entries fall out on the left.\<close>

definition deque_append :: "nat \<Rightarrow> 'a list \<Rightarrow> 'a \<Rightarrow> 'a list" where
  "deque_append maxlen xs x = (let ys = xs @ [x] in drop (length ys - maxlen) ys)"

subsection \<open>on_bytes\<close>

text \<open>The loop \<open>for i, byte in enumerate(b)\<close>, on the window's state.\<close>

fun on_bytes_loop ::
  "real \<Rightarrow> real \<Rightarrow> real \<Rightarrow> (nat \<times> byte) list \<Rightarrow> MainWindow \<Rightarrow> MainWindow" where
  "on_bytes_loop now base_offset dt [] w = w"
| "on_bytes_loop now base_offset dt ((i, byte) # rest) w =
     (let ts = now - (base_offset - real i * dt);
          adc = uint byte
      in on_bytes_loop now base_offset dt rest
           (w\<lparr>plot_x := deque_append (pts w) (plot_x w) ts,
              plot_y := deque_append (pts w) (plot_y w) adc,
              sample_times := sample_times w @ [ts]\<rparr>))"

text \<open>\<open>on_bytes\<close>, with the reading of \<open>time.time()\<close> passed in as \<open>now\<close>.\<close>

definition on_bytes :: "MainWindow \<Rightarrow> real \<Rightarrow> byte list \<Rightarrow> MainWindow" where
  "on_bytes w now b =
     (if b = [] then w
      else
        let n = length b;
            dt = (if sampling_rate w \<noteq> 0 \<and> sampling_rate w > 0
                  then 1 / real_of_int (sampling_rate w) else 0);
            base_offset = real (n - 1) * dt
        in on_bytes_loop now base_offset dt (enumerate 0 b) w)"

subsection \<open>detect_r_peaks\<close>

text \<open>Python 3 \<open>round\<close> with one argument: to the nearest integer, a tie to the even one.\<close>

definition py_round :: "real \<Rightarrow> int" where
  "py_round x =
     (let f = \<lfloor>x\<rfloor>; d = x - of_int f
      in if d < 1 / 2 then f
         else if 1 / 2 < d then f + 1
         else if even f then f else f + 1)"

text \<open>\<open>min\<close> and \<open>max\<close> of a non-empty list, left to right.\<close>

definition py_min :: "real list \<Rightarrow> real" where
  "py_min xs = fold min (tl xs) (hd xs)"

definition py_max :: "real list \<Rightarrow> real" where
  "py_max xs = fold max (tl xs) (hd xs)"

text \<open>
  The scan \<open>for i in range(1, n - 1)\<close> over the indices still to visit, with
  \<open>last_peak\<close> and the list of accepted indices as the loop's state.
\<close>

fun scan_peaks ::
  "real list \<Rightarrow> real \<Rightarrow> int \<Rightarrow> nat list \<Rightarrow> int \<Rightarrow> nat list \<Rightarrow> nat list" where
  "scan_peaks raw_data thr min_interval_points [] last_peak r_peak_indices = r_peak_indices"
| "scan_peaks raw_data thr min_interval_points (i # rest) last_peak r_peak_indices =
     (let val = raw_data ! i
      in if val \<le> thr
         then scan_peaks raw_data thr min_interval_points rest last_peak r_peak_indices
         else if val > raw_data ! (i - 1) \<and> val \<ge> raw_data ! (i + 1)
              then (if int i - last_peak \<ge> min_interval_points
                    then scan_peaks raw_data thr min_interval_points rest (int i)
                           (r_peak_indices @ [i])
                    else scan_peaks raw_data thr min_interval_points rest last_peak
                           r_peak_indices)
              else scan_peaks raw_data thr min_interval_points rest last_peak r_peak_indices)"

text \<open>
  The test one iteration applies to index \<open>i\<close> before it appends it: above the
  threshold, above the left neighbour, not below the right one, far enough from
  \<open>last_peak\<close>.
\<close>

definition accepts :: "real list \<Rightarrow> real \<Rightarrow> int \<Rightarrow> int \<Rightarrow> nat \<Rightarrow> bool" where
  "accepts vs thr m last_peak i \<longleftrightarrow>
     vs ! i > thr \<and> vs ! i > vs ! (i - 1) \<and> vs ! i \<ge> vs ! (i + 1) \<and> int i - last_peak \<ge> m"

text \<open>The sampling rate the function works with: a non-positive \<open>fs\<close> is replaced.\<close>

definition effective_fs :: "MainWindow \<Rightarrow> real \<Rightarrow> real" where
  "effective_fs w fs =
     (if fs \<le> 0 then (if sampling_rate w > 0 then real_of_int (sampling_rate w) else 120)
      else fs)"

definition min_interval_points :: "MainWindow \<Rightarrow> real \<Rightarrow> int" where
  "min_interval_points w fs = max 1 (py_round (min_r_interval w * effective_fs w fs))"

text \<open>The threshold, with its floor correction.\<close>

definition peak_threshold :: "MainWindow \<Rightarrow> real list \<Rightarrow> real" where
  "peak_threshold w raw_data =
     (let n = length raw_data;
          vmin = py_min raw_data;
          vmax = py_max raw_data;
          vmean = sum_list raw_data / real n;
          thr = vmean + r_threshold_ratio w * (vmax - vmean);
          min_thr_offset = 0.005 * (if vref w \<noteq> 0 then vref w else 1)
      in if thr - vmin < min_thr_offset then vmin + min_thr_offset else thr)"

definition detect_r_peaks :: "MainWindow \<Rightarrow> real list \<Rightarrow> real \<Rightarrow> nat list" where
  "detect_r_peaks w raw_data fs =
     (let n = length raw_data
      in if n < 3 then []
         else
           let mip = min_interval_points w fs;
               vmin = py_min raw_data;
               vmax = py_max raw_data;
               amp = vmax - vmin
           in if amp \<le> 1 / 10 ^ 9 then []
              else
                let thr = peak_threshold w raw_data;
                    last_peak = - mip * 2
                in scan_peaks raw_data thr mip [1..<n - 1] last_peak [])"

subsection \<open>_estimate_bpm_from_wave\<close>

text \<open>
  The part of \<open>_estimate_bpm_from_wave\<close> after \<open>peak_times\<close> has been read: the
  intervals, the filter around their mean, the mean of what is left, and the band.
\<close>

definition peak_intervals :: "real list \<Rightarrow> real list" where
  "peak_intervals peak_times =
     map (\<lambda>i. peak_times ! i - peak_times ! (i - 1)) [1..<length peak_times]"

definition bpm_from_peak_times :: "real list \<Rightarrow> int option" where
  "bpm_from_peak_times peak_times =
     (let intervals = peak_intervals peak_times
      in if intervals = [] then None
         else
           let avg = sum_list intervals / real (length intervals);
               filtered = filter (\<lambda>it. 0.5 * avg \<le> it \<and> it \<le> 1.5 * avg) intervals
           in if filtered = [] then None
              else
                let mean_interval = sum_list filtered / real (length filtered)
                in if mean_interval \<le> 0 then None
                   else
                     let bpm = 60 / mean_interval
                     in if 30 \<le> bpm \<and> bpm \<le> 220 then Some (py_round bpm) else None)"

text \<open>
  The whole function. \<open>rel_xs[i]\<close> raises \<open>IndexError\<close> when a peak index is beyond
  \<open>rel_xs\<close>, which happens only if the caller passes a time list shorter than the
  voltage list.
\<close>

definition estimate_bpm_from_wave ::
  "MainWindow \<Rightarrow> real list \<Rightarrow> real list \<Rightarrow> error + int option" where
  "estimate_bpm_from_wave w voltages rel_xs =
     (let fs = sampling_rate w; n = length voltages
      in if fs \<le> 0 \<or> n < 3 then Inr None
         else
           let peaks = detect_r_peaks w voltages (real_of_int fs)
           in if length peaks < 2 then Inr None
              else if \<exists>i \<in> set peaks. length rel_xs \<le> i then Inl IndexError
              else Inr (bpm_from_peak_times (map (\<lambda>i. rel_xs ! i) peaks)))"

section \<open>Properties of the frame codec\<close>

subsection \<open>Checksum range, packing, and the parts of a frame\<close>

lemma crc16_range: "0 \<le> crc16 d \<and> crc16 d < 65536"
proof -
  have "crc16 d = take_bit 16 (foldl (crc_byte 0x1021) 0xFFFF d)"
    by (simp add: crc16_def crc16_ccitt_def take_bit_eq_mask mask_eq_exp_minus_1)
  then show ?thesis
    using take_bit_int_less_exp[of 16 "foldl (crc_byte 0x1021) 0xFFFF d"] by simp
qed

lemma unpack_pack_H: "0 \<le> v \<Longrightarrow> v < 65536 \<Longrightarrow> unpack_H (pack_H v) = v"
  by (simp add: unpack_H_def pack_H_def uint_word_of_int drop_bit_eq_div)

lemma unpack_pack_H_append: "0 \<le> v \<Longrightarrow> v < 65536 \<Longrightarrow> unpack_H (pack_H v @ xs) = v"
  using unpack_pack_H[of v] by (simp add: unpack_H_def pack_H_def)

lemma find_header_front: "find_bytes HEADER (HEADER @ xs) = Some 0"
  by (simp add: HEADER_def)

lemma length_pack_H: "length (pack_H v) = 2"
  by (simp add: pack_H_def)

lemma length_wire_frame: "length (wire_frame ty payload) = 6 + length payload"
  by (simp add: wire_frame_def HEADER_def length_pack_H)


lemma wire_frame_parts:
  fixes ty :: byte and payload :: "byte list"
  assumes "length payload \<le> 255"
  defines "W \<equiv> wire_frame ty payload"
  shows "take 2 W = HEADER"
    and "unat (W ! 2) = length payload"
    and "W ! 3 = ty"
    and "drop (4 + length payload) W = pack_H (crc16 ([of_nat (length payload), ty] @ payload))"
    and "drop 2 (take (4 + length payload) W) = [of_nat (length payload), ty] @ payload"
    and "drop 4 (take (4 + length payload) W) = payload"
proof -
  show "take 2 W = HEADER" by (simp add: W_def wire_frame_def HEADER_def)
  show "unat (W ! 2) = length payload"
    using assms(1) by (simp add: W_def wire_frame_def HEADER_def unat_of_nat)
  show "W ! 3 = ty" by (simp add: W_def wire_frame_def HEADER_def)
  show "drop (4 + length payload) W = pack_H (crc16 ([of_nat (length payload), ty] @ payload))"
    by (simp add: W_def wire_frame_def HEADER_def length_pack_H eval_nat_numeral)
  show "drop 2 (take (4 + length payload) W) = [of_nat (length payload), ty] @ payload"
    by (simp add: W_def wire_frame_def HEADER_def length_pack_H eval_nat_numeral)
  show "drop 4 (take (4 + length payload) W) = payload"
    by (simp add: W_def wire_frame_def HEADER_def length_pack_H eval_nat_numeral)
qed

lemma feed_loop_wire_frame:
  assumes len: "length payload \<le> 255"
  shows "feed_loop (wire_frame ty payload @ rest) res =
         feed_loop rest (res @ frame_output ty payload)"
proof -
  define W where "W = wire_frame ty payload"
  have lW: "length W = 6 + length payload" by (simp add: W_def length_wire_frame)
  have hd: "find_bytes HEADER (W @ rest) = Some 0"
    by (simp add: W_def wire_frame_def find_header_front)
  have b2: "(W @ rest) ! 2 = W ! 2" by (simp add: nth_append lW)
  note parts = wire_frame_parts[OF len, of ty, folded W_def]
  have crc: "unpack_H (pack_H (crc16 ([of_nat (length payload), ty] @ payload))) =
             crc16 ([of_nat (length payload), ty] @ payload)"
    using crc16_range by (intro unpack_pack_H) auto
  have crc': "unpack_H (pack_H (crc16 (of_nat (length payload) # ty # payload))) =
             crc16 (of_nat (length payload) # ty # payload)"
    using crc by simp
  have fo: "frame_output ty payload =
            (if ty = 0x01 then decode_samples W payload else [Unknown (uint ty) W])"
    by (simp add: frame_output_def W_def)
  show ?thesis
    unfolding W_def[symmetric] fo
    apply (subst feed_loop.simps)
    apply (simp add: hd b2 parts lW HEADER_LEN_def Let_def crc')
    done
qed


lemma feed_loop_short: "length buf < 6 \<Longrightarrow> feed_loop buf res = (buf, res)"
  by (subst feed_loop.simps) (simp add: HEADER_LEN_def)

lemma feed_loop_partial_frame:
  assumes len: "length payload \<le> 255"
    and split: "p @ q = wire_frame ty payload" and q: "q \<noteq> []"
  shows "feed_loop p res = (p, res)"
proof (cases "length p < 6")
  case True
  then show ?thesis by (rule feed_loop_short)
next
  case False
  define W where "W = wire_frame ty payload"
  have lW: "length W = 6 + length payload" by (simp add: W_def length_wire_frame)
  have W: "W = p @ q" using split by (simp add: W_def)
  have pW: "p = take (length p) W" by (simp add: W)
  have lp: "length p < length W" using q by (simp add: W)
  obtain r where r: "p = HEADER @ r"
    using False split by (cases p; cases "tl p") (auto simp: wire_frame_def HEADER_def)
  have hd: "find_bytes HEADER p = Some 0" unfolding r by (rule find_header_front)
  have "p ! 2 = W ! 2" using False by (subst pW) simp
  then have p2: "unat (p ! 2) = length payload"
    using wire_frame_parts(2)[OF len, of ty] by (simp add: W_def)
  show ?thesis
    using False lp
    by (subst feed_loop.simps) (simp add: hd p2 lW HEADER_LEN_def Let_def)
qed

lemma mask16_range: "0 \<le> (x::int) AND 0xFFFF \<and> x AND 0xFFFF < 65536"
proof -
  have "x AND 0xFFFF = take_bit 16 x"
    by (simp add: take_bit_eq_mask mask_eq_exp_minus_1)
  then show ?thesis using take_bit_int_less_exp[of 16 x] by simp
qed

lemma mask16_id: "0 \<le> (x::int) \<Longrightarrow> x < 65536 \<Longrightarrow> x AND 0xFFFF = x"
proof -
  assume a: "0 \<le> x" "x < 65536"
  have "x AND 0xFFFF = take_bit 16 x"
    by (simp add: take_bit_eq_mask mask_eq_exp_minus_1)
  also have "\<dots> = x" using a by (simp add: take_bit_int_eq_self)
  finally show ?thesis .
qed

lemma decode_samples_group:
  assumes "length g = 4"
  shows "decode_samples F (g @ rest) = decode_group F g 0 # decode_samples F rest"
proof -
  have n: "length (g @ rest) div 4 = Suc (length rest div 4)" using assms by simp
  have g0: "decode_group F (g @ rest) 0 = decode_group F g 0"
    using assms by (simp add: decode_group_def)
  have gS: "decode_group F (g @ rest) (Suc i) = decode_group F rest i" for i
    using assms by (simp add: decode_group_def Let_def)
  have "map (decode_group F (g @ rest)) [0..<Suc (length rest div 4)] =
        decode_group F (g @ rest) 0 # map (\<lambda>i. decode_group F (g @ rest) (Suc i)) [0..<length rest div 4]"
    by (simp only: map_upt_Suc)
  then show ?thesis
    unfolding decode_samples_def Let_def n by (simp only: g0 gS)
qed

lemma decode_pack_samples:
  "decode_samples F (pack_samples s) =
   map (\<lambda>(sid, adc). Sample (sid AND 0xFFFF) (adc AND 0xFFFF) F) s"
proof (induction s)
  case Nil
  then show ?case by (simp add: decode_samples_def)
next
  case (Cons a s)
  obtain sid adc where a: "a = (sid, adc)" by (cases a)
  define g where "g = pack_H (sid AND 0xFFFF) @ pack_H (adc AND 0xFFFF)"
  have lg: "length g = 4" by (simp add: g_def length_pack_H)
  have dg: "decode_group F g 0 = Sample (sid AND 0xFFFF) (adc AND 0xFFFF) F"
    using mask16_range[of sid] mask16_range[of adc]
    by (simp add: decode_group_def g_def length_pack_H unpack_pack_H)
  have "pack_samples (a # s) = g @ pack_samples s" by (simp add: a g_def)
  then have "decode_samples F (pack_samples (a # s)) =
             decode_group F g 0 # decode_samples F (pack_samples s)"
    using decode_samples_group[OF lg, of F "pack_samples s"] by simp
  then show ?case using Cons.IH dg by (simp add: a)
qed

lemma length_pack_samples: "length (pack_samples s) = 4 * length s"
  by (induction s) (auto simp: length_pack_H)

lemma make_frame_wire:
  "length s \<le> 63 \<Longrightarrow> make_frame s = Inr (wire_frame 0x01 (pack_samples s))"
  by (simp add: make_frame_def wire_frame_def Let_def length_pack_samples)

lemma make_frame_too_long:
  "63 < length s \<Longrightarrow> make_frame s = Inl ValueError"
  by (simp add: make_frame_def Let_def length_pack_samples)

subsection \<open>A frame fed in chunks\<close>

lemma feed_loop_wire_frame_only:
  "length payload \<le> 255 \<Longrightarrow>
   feed_loop (wire_frame ty payload) res = ([], res @ frame_output ty payload)"
  using feed_loop_wire_frame[of payload ty "[]" res] by (simp add: feed_loop_short)

lemma feed_chunks_silent:
  "concat chunks = [] \<Longrightarrow> feed_chunks \<lparr>buffer = []\<rparr> chunks = (\<lparr>buffer = []\<rparr>, [])"
  by (induction chunks) (auto simp: feed_def feed_loop_short)

lemma feed_chunks_wire_frame:
  assumes len: "length payload \<le> 255"
  shows "buf @ concat chunks = wire_frame ty payload \<Longrightarrow> concat chunks \<noteq> [] \<Longrightarrow>
         feed_chunks \<lparr>buffer = buf\<rparr> chunks = (\<lparr>buffer = []\<rparr>, frame_output ty payload)"
proof (induction chunks arbitrary: buf)
  case Nil
  then show ?case by simp
next
  case (Cons c cs)
  show ?case
  proof (cases "concat cs = []")
    case True
    have "buf @ c = wire_frame ty payload"
      using Cons.prems(1) by (simp only: concat.simps True append_Nil2)
    then have "feed \<lparr>buffer = buf\<rparr> c = (\<lparr>buffer = []\<rparr>, frame_output ty payload)"
      by (simp add: feed_def feed_loop_wire_frame_only[OF len])
    then show ?thesis using feed_chunks_silent[OF True] by simp
  next
    case False
    have "(buf @ c) @ concat cs = wire_frame ty payload" using Cons.prems by simp
    then have "feed_loop (buf @ c) [] = (buf @ c, [])"
      using False by (rule feed_loop_partial_frame[OF len])
    then have "feed \<lparr>buffer = buf\<rparr> c = (\<lparr>buffer = buf @ c\<rparr>, [])"
      by (simp add: feed_def)
    moreover have "feed_chunks \<lparr>buffer = buf @ c\<rparr> cs = (\<lparr>buffer = []\<rparr>, frame_output ty payload)"
      using Cons.IH[of "buf @ c"] Cons.prems False by simp
    ultimately show ?thesis by simp
  qed
qed

lemma decode_pack_samples_in_range:
  assumes "\<forall>(sid, adc) \<in> set s. 0 \<le> sid \<and> sid < 65536 \<and> 0 \<le> adc \<and> adc < 65536"
  shows "decode_samples F (pack_samples s) = map (\<lambda>(sid, adc). Sample sid adc F) s"
  unfolding decode_pack_samples
  using assms by (auto simp: mask16_id)

section \<open>Round trip through make_frame and feed\<close>

text \<open>
  Claim C1, as amended. For every list of at most 63 \<open>(sample_id, adc)\<close> pairs with
  each value in \<open>[0, 65535]\<close>, \<open>make_frame\<close> returns a frame, and feeding the bytes
  of that frame to a fresh parser, cut into any sequence of chunks (empty chunks
  included), returns exactly the original pairs in order, each with the frame as its
  \<open>raw_frame\<close>, and leaves the buffer empty. Feeding the frame in one call and feeding
  it one byte per call are the two named instances.
\<close>

theorem roundtrip_any_chunking:
  assumes n: "length samples \<le> 63"
    and range: "\<forall>(sid, adc) \<in> set samples. 0 \<le> sid \<and> sid < 65536 \<and> 0 \<le> adc \<and> adc < 65536"
  shows "\<exists>frame. make_frame samples = Inr frame \<and>
           (\<forall>chunks. concat chunks = frame \<longrightarrow>
              feed_chunks Parser_init chunks =
                (\<lparr>buffer = []\<rparr>, map (\<lambda>(sid, adc). Sample sid adc frame) samples)) \<and>
           feed Parser_init frame =
             (\<lparr>buffer = []\<rparr>, map (\<lambda>(sid, adc). Sample sid adc frame) samples) \<and>
           feed_chunks Parser_init (map (\<lambda>b. [b]) frame) =
             (\<lparr>buffer = []\<rparr>, map (\<lambda>(sid, adc). Sample sid adc frame) samples)"
proof -
  define frame where "frame = wire_frame 0x01 (pack_samples samples)"
  define out where "out = map (\<lambda>(sid, adc). Sample sid adc frame) samples"
  have len: "length (pack_samples samples) \<le> 255"
    using n by (simp add: length_pack_samples)
  have mk: "make_frame samples = Inr frame"
    using n by (simp add: frame_def make_frame_wire)
  have fo: "frame_output 0x01 (pack_samples samples) = out"
    using decode_pack_samples_in_range[OF range] by (simp add: frame_output_def out_def frame_def)
  have ne: "frame \<noteq> []" by (simp add: frame_def wire_frame_def HEADER_def)
  have all: "feed_chunks Parser_init chunks = (\<lparr>buffer = []\<rparr>, out)"
    if "concat chunks = frame" for chunks
    using feed_chunks_wire_frame[OF len, where buf="[]" and chunks=chunks and ty="0x01"] that ne
    by (simp add: Parser_init_def fo frame_def)
  have one: "feed Parser_init frame = (\<lparr>buffer = []\<rparr>, out)"
    using all[of "[frame]"] by simp
  have "concat (map (\<lambda>b. [b]) frame) = frame" by (induction frame) auto
  then have bytes: "feed_chunks Parser_init (map (\<lambda>b. [b]) frame) = (\<lparr>buffer = []\<rparr>, out)"
    by (rule all)
  show ?thesis using mk all one bytes unfolding out_def by blast
qed

text \<open>
  Claim C1 as stated fails for a list of 64 pairs: the payload has 256 bytes, the LEN
  field is one byte, and \<open>make_frame\<close> raises \<open>ValueError\<close> instead of returning a
  frame.
\<close>

theorem make_frame_64_samples_raises:
  "make_frame (replicate 64 (0, 0)) = Inl ValueError"
  by (simp add: make_frame_too_long)

theorem roundtrip_any_chunking_witness:
  "length [(1, 2), (65535, 0 :: int)] \<le> 63 \<and>
   (\<exists>frame. make_frame [(1, 2), (65535, 0)] = Inr frame \<and>
     feed_chunks Parser_init (map (\<lambda>b. [b]) frame) =
       (\<lparr>buffer = []\<rparr>, [Sample 1 2 frame, Sample 65535 0 frame]))"
  using roundtrip_any_chunking[of "[(1, 2), (65535, 0)]"] by auto

section \<open>Payloads that are not a whole number of groups\<close>

lemma unpack_H_nth:
  "off + 1 < length payload \<Longrightarrow>
   unpack_H (take 2 (drop off payload)) =
   uint (payload ! off) + 256 * uint (payload ! (off + 1))"
  by (simp add: unpack_H_def)

lemma decode_samples_truncate:
  "decode_samples F payload = decode_samples F (take (4 * (length payload div 4)) payload)"
proof -
  define n where "n = length payload div 4"
  have le: "4 * n \<le> length payload" by (simp add: n_def)
  have n': "length (take (4 * n) payload) div 4 = n" using le by simp
  have "decode_group F payload i = decode_group F (take (4 * n) payload) i" if "i < n" for i
  proof -
    have a: "take 2 (drop (i * 4) (take (4 * n) payload)) = take 2 (drop (i * 4) payload)"
      using that by (simp add: drop_take min_def)
    have b: "take 2 (drop (i * 4 + 2) (take (4 * n) payload)) = take 2 (drop (i * 4 + 2) payload)"
      using that by (simp add: drop_take min_def)
    show ?thesis by (simp only: decode_group_def Let_def a b)
  qed
  then have "map (decode_group F payload) [0..<n] =
             map (decode_group F (take (4 * n) payload)) [0..<n]"
    by simp
  then show ?thesis
    unfolding decode_samples_def Let_def n' n_def[symmetric] .
qed

text \<open>
  Claim C8. A validated Type-0x01 frame with a payload of \<open>L\<close> bytes (any \<open>L\<close> up to
  255, a multiple of 4 or not) is not rejected: \<open>feed\<close> on a fresh parser returns
  normally with exactly \<open>L div 4\<close> samples, sample \<open>i\<close> decoded little-endian from
  payload bytes \<open>4 i\<close> to \<open>4 i + 3\<close>, the buffer is left empty, and the result is the
  one for the payload cut down to its leading \<open>4 * (L div 4)\<close> bytes: the trailing
  \<open>L mod 4\<close> bytes leave no trace and no error.
\<close>

theorem odd_payload_truncated:
  assumes len: "length payload \<le> 255"
  defines "frame \<equiv> wire_frame 0x01 payload"
  shows "\<exists>out. feed Parser_init frame = (\<lparr>buffer = []\<rparr>, out) \<and>
           length out = length payload div 4 \<and>
           (\<forall>i < length payload div 4.
              out ! i = Sample (uint (payload ! (4 * i)) + 256 * uint (payload ! (4 * i + 1)))
                               (uint (payload ! (4 * i + 2)) + 256 * uint (payload ! (4 * i + 3)))
                               frame) \<and>
           out = decode_samples frame (take (4 * (length payload div 4)) payload)"
proof -
  define out where "out = decode_samples frame payload"
  have f: "feed Parser_init frame = (\<lparr>buffer = []\<rparr>, out)"
    using feed_loop_wire_frame_only[OF len, of "0x01" "[]"]
    by (simp add: feed_def Parser_init_def frame_def out_def frame_output_def)
  have l: "length out = length payload div 4"
    by (simp add: out_def decode_samples_def)
  have n: "out ! i = Sample (uint (payload ! (4 * i)) + 256 * uint (payload ! (4 * i + 1)))
                            (uint (payload ! (4 * i + 2)) + 256 * uint (payload ! (4 * i + 3)))
                            frame"
    if "i < length payload div 4" for i
  proof -
    have b: "4 * i + 3 < length payload" using that by simp
    have "out ! i = decode_group frame payload i"
      using that by (simp add: out_def decode_samples_def)
    also have "\<dots> = Sample (unpack_H (take 2 (drop (4 * i) payload)))
                            (unpack_H (take 2 (drop (4 * i + 2) payload))) frame"
      by (simp add: decode_group_def Let_def mult.commute)
    finally show ?thesis
      using unpack_H_nth[of "4 * i" payload] unpack_H_nth[of "4 * i + 2" payload] b
      by (simp add: numeral_3_eq_3)
  qed
  have t: "out = decode_samples frame (take (4 * (length payload div 4)) payload)"
    unfolding out_def by (rule decode_samples_truncate)
  show ?thesis using f l n t by blast
qed

theorem odd_payload_truncated_witness:
  "length [1, 0, 2, 0, 3 :: byte] \<le> 255 \<and>
   feed Parser_init (wire_frame 0x01 [1, 0, 2, 0, 3]) =
     (\<lparr>buffer = []\<rparr>, [Sample 1 2 (wire_frame 0x01 [1, 0, 2, 0, 3])])"
proof -
  obtain out where o: "feed Parser_init (wire_frame 0x01 [1, 0, 2, 0, 3]) = (\<lparr>buffer = []\<rparr>, out)"
     "length out = 1"
     "out ! 0 = Sample 1 2 (wire_frame 0x01 [1, 0, 2, 0, 3])"
    using odd_payload_truncated[of "[1, 0, 2, 0, 3]"] by auto
  then have "out = [Sample 1 2 (wire_frame 0x01 [1, 0, 2, 0, 3])]"
    by (cases out) auto
  with o show ?thesis by simp
qed

section \<open>What feed leaves in the buffer\<close>

lemma find_bytes_Some:
  "find_bytes sub xs = Some i \<Longrightarrow>
   i + length sub \<le> length xs \<and> take (length sub) (drop i xs) = sub"
proof (induction xs arbitrary: i)
  case Nil
  then show ?case by (auto split: if_splits)
next
  case (Cons x xs)
  show ?case
  proof (cases "take (length sub) (x # xs) = sub")
    case True
    then have "i = 0" using Cons.prems by simp
    moreover have "length sub \<le> length (x # xs)"
      using arg_cong[OF True, of length] by simp
    ultimately show ?thesis using True by simp
  next
    case False
    then obtain j where j: "find_bytes sub xs = Some j" "i = Suc j"
      using Cons.prems by auto
    then show ?thesis using Cons.IH[of j] by simp
  qed
qed

lemma take_eq_iff_prefix: "take (length sub) ys = sub \<longleftrightarrow> prefix sub ys"
  by (metis append_eq_conv_conj prefix_def)

lemma find_bytes_None_iff: "find_bytes sub xs = None \<longleftrightarrow> \<not> sublist sub xs"
proof (induction xs)
  case Nil
  then show ?case by simp
next
  case (Cons x xs)
  then show ?case
    by (simp add: sublist_Cons_right take_eq_iff_prefix del: take_Suc_Cons)
qed

lemma feed_loop_step:
  assumes long: "\<not> length buf < 6" and found: "find_bytes HEADER buf = Some idx"
  defines "buf1 \<equiv> drop idx buf"
  defines "total_len \<equiv> 6 + unat (buf1 ! 2)"
  defines "frame \<equiv> take total_len buf1"
  shows "feed_loop buf res =
     (if length buf1 < 4 then (buf1, res)
      else if length buf1 < total_len then (buf1, res)
      else if crc16 (drop 2 (take (total_len - 2) frame)) \<noteq> unpack_H (drop (total_len - 2) frame)
      then feed_loop (drop 1 buf1) res
      else feed_loop (drop total_len buf1)
             (res @ (if frame ! 3 = 0x01
                     then decode_samples frame (drop 4 (take (total_len - 2) frame))
                     else [Unknown (uint (frame ! 3)) frame])))"
proof -
  have b: "(if 0 < idx then drop idx buf else buf) = buf1" by (simp add: buf1_def)
  have t: "HEADER_LEN + 1 + 1 + unat (buf1 ! 2) + 2 = total_len"
    by (simp add: total_len_def HEADER_LEN_def)
  have l: "length frame = total_len" if "\<not> length buf1 < total_len"
    using that by (simp add: frame_def)
  show ?thesis
    apply (subst feed_loop.simps)
    apply (simp only: found option.case Let_def b t frame_def[symmetric])
    using long l apply (simp add: HEADER_LEN_def)
    done
qed

lemma feed_loop_exit:
  "feed_loop buf res = (buf', res') \<Longrightarrow>
   (prefix HEADER buf' \<or> length buf' \<le> 5) \<and> suffix buf' buf"
proof (induction "length buf" arbitrary: buf res rule: less_induct)
  case less
  show ?case
  proof (cases "length buf < 6")
    case True
    then show ?thesis using less.prems by (simp add: feed_loop_short)
  next
    case long: False
    show ?thesis
    proof (cases "find_bytes HEADER buf")
      case None
      then show ?thesis using less.prems long
        by (subst (asm) feed_loop.simps) (auto simp: HEADER_LEN_def)
    next
      case (Some idx)
      define buf1 where "buf1 = drop idx buf"
      define total_len where "total_len = 6 + unat (buf1 ! 2)"
      have pre: "prefix HEADER buf1"
        using find_bytes_Some[OF Some] by (simp add: buf1_def flip: take_eq_iff_prefix)
      have suf: "suffix buf1 buf" by (simp add: buf1_def suffix_drop)
      have l1: "length buf1 \<le> length buf" by (simp add: buf1_def)
      define frame where "frame = take total_len buf1"
      have step: "feed_loop buf res =
         (if length buf1 < 4 then (buf1, res)
          else if length buf1 < total_len then (buf1, res)
          else if crc16 (drop 2 (take (total_len - 2) frame)) \<noteq> unpack_H (drop (total_len - 2) frame)
          then feed_loop (drop 1 buf1) res
          else feed_loop (drop total_len buf1)
                 (res @ (if frame ! 3 = 0x01
                         then decode_samples frame (drop 4 (take (total_len - 2) frame))
                         else [Unknown (uint (frame ! 3)) frame])))"
        unfolding frame_def total_len_def buf1_def by (rule feed_loop_step[OF long Some])
      consider (short) "length buf1 < 4" | (wait) "\<not> length buf1 < 4" "length buf1 < total_len"
        | (rec) buf2 res2 where "feed_loop buf res = feed_loop buf2 res2"
            "suffix buf2 buf1" "length buf2 < length buf1"
      proof (cases "length buf1 < 4 \<or> length buf1 < total_len")
        case True
        then show ?thesis using short wait by blast
      next
        case False
        then have ge: "6 \<le> length buf1" "total_len \<le> length buf1"
          by (auto simp: total_len_def)
        have no: "\<not> length buf1 < 4" "\<not> length buf1 < total_len" using False by auto
        show ?thesis
        proof (cases "crc16 (drop 2 (take (total_len - 2) frame)) \<noteq>
                      unpack_H (drop (total_len - 2) frame)")
          case True
          have "feed_loop buf res = feed_loop (drop 1 buf1) res"
            using True no by (simp add: step)
          then show ?thesis
            by (rule rec) (use ge in \<open>auto simp: suffix_drop\<close>)
        next
          case ok: False
          have "feed_loop buf res = feed_loop (drop total_len buf1)
                 (res @ (if frame ! 3 = 0x01
                         then decode_samples frame (drop 4 (take (total_len - 2) frame))
                         else [Unknown (uint (frame ! 3)) frame]))"
            using ok no by (simp add: step)
          then show ?thesis
            by (rule rec) (use ge in \<open>auto simp: suffix_drop total_len_def\<close>)
        qed
      qed
      then show ?thesis
      proof cases
        case short
        then show ?thesis using less.prems pre suf by (auto simp: step)
      next
        case wait
        then show ?thesis using less.prems pre suf by (auto simp: step)
      next
        case rec
        have "length buf2 < length buf" using rec(3) l1 by simp
        from less.hyps[OF this, of res2] less.prems rec(1)
        have "(prefix HEADER buf' \<or> length buf' \<le> 5) \<and> suffix buf' buf2" by simp
        then show ?thesis using rec(2) suf by (meson suffix_order.trans)
      qed
    qed
  qed
qed


lemma feed_exit:
  "(prefix HEADER (buffer (fst (feed p chunk))) \<or> length (buffer (fst (feed p chunk))) \<le> 5) \<and>
   suffix (buffer (fst (feed p chunk))) (buffer p @ chunk)"
proof -
  obtain buf' res' where r: "feed_loop (buffer p @ chunk) [] = (buf', res')"
    by (cases "feed_loop (buffer p @ chunk) []")
  then have "buffer (fst (feed p chunk)) = buf'" by (simp add: feed_def)
  then show ?thesis using feed_loop_exit[OF r] by simp
qed

lemma feed_header_free:
  assumes "find_bytes HEADER (buffer p @ chunk) = None"
  shows "feed p chunk =
           (p\<lparr>buffer := (if length (buffer p @ chunk) < 6 then buffer p @ chunk else [])\<rparr>, [])"
proof (cases "length (buffer p @ chunk) < 6")
  case True
  then show ?thesis by (simp add: feed_def feed_loop_short)
next
  case False
  then have "feed_loop (buffer p @ chunk) [] = ([], [])"
    using assms by (subst feed_loop.simps) (simp add: HEADER_LEN_def)
  then show ?thesis using False by (simp add: feed_def)
qed

lemma feed_chunks_snoc:
  "fst (feed_chunks p (chunks @ [chunk])) = fst (feed (fst (feed_chunks p chunks)) chunk)"
proof (induction chunks arbitrary: p)
  case Nil
  then show ?case by (simp add: split_beta)
next
  case (Cons c cs)
  then show ?case by (simp add: split_beta)
qed

lemma feed_chunks_suffix:
  "suffix (buffer (fst (feed_chunks p chunks))) (buffer p @ concat chunks)"
proof (induction chunks arbitrary: p)
  case Nil
  then show ?case by simp
next
  case (Cons c cs)
  define p1 where "p1 = fst (feed p c)"
  have a: "suffix (buffer p1) (buffer p @ c)" using feed_exit[of p c] by (simp add: p1_def)
  have "suffix (buffer (fst (feed_chunks p1 cs))) (buffer p1 @ concat cs)" by (rule Cons.IH)
  also have "suffix (buffer p1 @ concat cs) ((buffer p @ c) @ concat cs)"
    using a by (auto simp: suffix_def)
  finally show ?case by (simp add: split_beta p1_def)
qed

text \<open>
  Claim C10. From any parser state and for any chunk, \<open>feed\<close> returns, and the buffer
  it leaves either contains the header bytes 0xAA 0x55 (it then starts with them) or
  holds at most 5 bytes. The buffer left is a suffix of the old buffer followed by the
  chunk, so when those bytes contain no header the buffer left has at most 5 bytes: it
  stays bounded on header-free input without always being emptied.
\<close>

theorem feed_buffer_invariant:
  "(sublist HEADER (buffer (fst (feed p chunk))) \<or> length (buffer (fst (feed p chunk))) \<le> 5) \<and>
   suffix (buffer (fst (feed p chunk))) (buffer p @ chunk) \<and>
   (\<not> sublist HEADER (buffer p @ chunk) \<longrightarrow> length (buffer (fst (feed p chunk))) \<le> 5)"
proof -
  define b where "b = buffer (fst (feed p chunk))"
  have e: "prefix HEADER b \<or> length b \<le> 5" and s: "suffix b (buffer p @ chunk)"
    using feed_exit[of p chunk] by (simp_all add: b_def)
  have 1: "sublist HEADER b \<or> length b \<le> 5" using e by (auto dest: prefix_imp_sublist)
  have "sublist HEADER (buffer p @ chunk)" if "sublist HEADER b"
    using that s by (meson sublist_order.order_trans suffix_imp_sublist)
  then have 3: "\<not> sublist HEADER (buffer p @ chunk) \<longrightarrow> length b \<le> 5" using 1 by blast
  show ?thesis using 1 s 3 unfolding b_def by blast
qed

theorem feed_buffer_invariant_witness:
  "\<not> sublist HEADER (buffer Parser_init @ [1, 2, 3, 0xAA, 5, 0x55, 7]) \<and>
   length (buffer (fst (feed Parser_init [1, 2, 3, 0xAA, 5, 0x55, 7]))) \<le> 5"
proof -
  have "find_bytes HEADER [1, 2, 3, 0xAA, 5, 0x55, 7] = None" by (simp add: HEADER_def)
  then have "\<not> sublist HEADER [1, 2, 3, 0xAA, 5, 0x55, 7]"
    using find_bytes_None_iff by blast
  moreover have "buffer Parser_init @ [1, 2, 3, 0xAA, 5, 0x55, 7] = [1, 2, 3, 0xAA, 5, 0x55, 7]"
    by (simp add: Parser_init_def)
  ultimately have h: "\<not> sublist HEADER (buffer Parser_init @ [1, 2, 3, 0xAA, 5, 0x55, 7])"
    by metis
  with feed_buffer_invariant[of Parser_init "[1, 2, 3, 0xAA, 5, 0x55, 7]"] show ?thesis by blast
qed

text \<open>
  Claim C4, as amended. For every sequence of \<open>feed\<close> calls on a fresh parser whose
  concatenated bytes never contain the header 0xAA 0x55, after each call the buffer
  holds at most 5 bytes: it is empty when the bytes kept so far together with the new
  chunk number 6 or more, and it is those bytes unchanged when they number fewer than 6.
  Here \<open>p\<close> is the parser before call number \<open>k\<close> (counted from 0) and \<open>p'\<close> the parser
  after it.
\<close>

theorem header_free_stream_buffer:
  assumes free: "find_bytes HEADER (concat chunks) = None" and k: "k < length chunks"
  defines "p \<equiv> fst (feed_chunks Parser_init (take k chunks))"
  defines "p' \<equiv> fst (feed_chunks Parser_init (take (Suc k) chunks))"
  shows "p' = fst (feed p (chunks ! k)) \<and>
         buffer p' = (if length (buffer p @ chunks ! k) < 6 then buffer p @ chunks ! k else []) \<and>
         length (buffer p') \<le> 5"
proof -
  have step: "p' = fst (feed p (chunks ! k))"
    unfolding p'_def p_def using k by (simp add: take_Suc_conv_app_nth feed_chunks_snoc)
  have "suffix (buffer p) (concat (take k chunks))"
    using feed_chunks_suffix[of Parser_init "take k chunks"] by (simp add: p_def Parser_init_def)
  then have "suffix (buffer p @ chunks ! k) (concat (take k chunks) @ chunks ! k)"
    by (auto simp: suffix_def)
  moreover have "concat chunks = (concat (take k chunks) @ chunks ! k) @ concat (drop (Suc k) chunks)"
    using k by (metis append.assoc append_take_drop_id concat.simps(2) concat_append Cons_nth_drop_Suc)
  then have "prefix (concat (take k chunks) @ chunks ! k) (concat chunks)"
    by (metis prefixI)
  ultimately have "sublist (buffer p @ chunks ! k) (concat chunks)"
    by (meson prefix_imp_sublist sublist_order.order_trans suffix_imp_sublist)
  moreover have "\<not> sublist HEADER (concat chunks)" using free by (simp add: find_bytes_None_iff)
  ultimately have "\<not> sublist HEADER (buffer p @ chunks ! k)"
    by (meson sublist_order.order_trans)
  then have "find_bytes HEADER (buffer p @ chunks ! k) = None" by (simp add: find_bytes_None_iff)
  from feed_header_free[OF this] have
    b: "buffer p' = (if length (buffer p @ chunks ! k) < 6 then buffer p @ chunks ! k else [])"
    by (simp add: step)
  then have "length (buffer p') \<le> 5" by (simp split: if_splits)
  with step b show ?thesis by blast
qed

theorem header_free_stream_buffer_witness:
  "find_bytes HEADER (concat [[1, 2, 3], [4, 5, 6, 7]]) = None \<and>
   (1 :: nat) < length [[1, 2, 3], [4, 5, 6, 7 :: byte]] \<and>
   length (buffer (fst (feed_chunks Parser_init (take (Suc 1) [[1, 2, 3], [4, 5, 6, 7]])))) \<le> 5"
proof -
  have f: "find_bytes HEADER (concat [[1, 2, 3], [4, 5, 6, 7]]) = None" by (simp add: HEADER_def)
  have k: "(1 :: nat) < length [[1, 2, 3], [4, 5, 6, 7 :: byte]]" by simp
  from header_free_stream_buffer[OF f k] f k show ?thesis by blast
qed

text \<open>
  Claim C4 as stated fails on the one-byte stream 0x00: the length test at the head of
  the loop leaves before the header search, and the byte stays in the buffer.
\<close>

theorem short_noise_stays_buffered:
  "find_bytes HEADER (concat [[0x00]]) = None \<and>
   length (buffer (fst (feed_chunks Parser_init [[0x00]]))) = 1"
  by (simp add: HEADER_def Parser_init_def feed_def feed_loop_short)

section \<open>The checksum\<close>

subsection \<open>The integer code computes the 16-bit specification\<close>

lemma mask16_uint: "uint (w :: 16 word) AND 0xFFFF = uint w"
proof -
  have "uint w AND 0xFFFF = take_bit 16 (uint w)"
    by (simp add: take_bit_eq_mask mask_eq_exp_minus_1)
  also have "\<dots> = uint w" by (rule take_bit_int_eq_self) (use uint_lt2p[of w] in auto)
  finally show ?thesis .
qed

lemma test_bit15: "uint (w :: 16 word) AND 0x8000 \<noteq> 0 \<longleftrightarrow> bit w 15"
  using and_exp_eq_0_iff_not_bit[of "uint w" 15] by (simp add: bit_uint_iff)

lemma shift_mask: "(push_bit 1 (uint (w :: 16 word))) AND 0xFFFF = uint (push_bit 1 w)"
proof -
  have "(push_bit 1 (uint w)) AND 0xFFFF = take_bit 16 (push_bit 1 (uint w))"
    by (simp add: take_bit_eq_mask mask_eq_exp_minus_1)
  also have "\<dots> = uint (push_bit 1 w)" by (simp only: unsigned_push_bit_eq) simp
  finally show ?thesis .
qed

lemma crc_shift_word: "crc_shift 0x1021 (uint w) = uint (spec_round w)"
proof -
  have p: "uint (0x1021 :: 16 word) = 0x1021" by simp
  have "uint (push_bit 1 w XOR 0x1021) = uint (push_bit 1 w) XOR 0x1021"
    by (simp only: uint_xor p)
  then show ?thesis
    by (simp only: crc_shift_def spec_round_def test_bit15 shift_mask if_distrib[of uint])
qed

lemma crc_shift_funpow: "(crc_shift 0x1021 ^^ n) (uint w) = uint ((spec_round ^^ n) w)"
  by (induction n) (simp_all add: crc_shift_word)

lemma ucast_byte: "uint (ucast (b :: byte) :: 16 word) = uint b"
proof -
  have "uint b < 2 ^ 8" using uint_lt2p[of b] by simp
  then have "uint b < 2 ^ 16" by simp
  then have "take_bit 16 (uint b) = uint b" by (simp add: take_bit_int_eq_self)
  then show ?thesis by (simp add: unsigned_ucast_eq)
qed

lemma byte_into_high: "push_bit 8 (uint (b :: byte)) = uint (push_bit 8 (ucast b :: 16 word))"
proof -
  have "uint b < 2 ^ 8" using uint_lt2p[of b] by simp
  then have "push_bit 8 (uint b) < 2 ^ 16" by (simp add: push_bit_eq_mult)
  moreover have "0 \<le> push_bit 8 (uint b)" by simp
  ultimately have "take_bit 16 (push_bit 8 (uint b)) = push_bit 8 (uint b)"
    by (simp add: take_bit_int_eq_self)
  moreover have "uint (push_bit 8 (ucast b :: 16 word)) = take_bit 16 (push_bit 8 (uint (ucast b :: 16 word)))"
    by (simp only: unsigned_push_bit_eq) simp
  ultimately show ?thesis by (simp only: ucast_byte)
qed

lemma crc_byte_word: "crc_byte 0x1021 (uint w) b = uint (spec_byte w b)"
proof -
  have "uint w XOR push_bit 8 (uint b) = uint (w XOR push_bit 8 (ucast b))"
    by (simp only: byte_into_high uint_xor)
  then show ?thesis by (simp only: crc_byte_def spec_byte_def crc_shift_funpow)
qed

lemma crc_fold_word: "foldl (crc_byte 0x1021) (uint w) data = uint (foldl spec_byte w data)"
  by (induction data arbitrary: w) (simp_all add: crc_byte_word)

lemma crc16_word: "crc16 data = uint (crc16_ccitt_false data)"
proof -
  have "(0xFFFF :: int) = uint (0xFFFF :: 16 word)" by simp
  then have "foldl (crc_byte 0x1021) 0xFFFF data = uint (foldl spec_byte 0xFFFF data)"
    using crc_fold_word[of "0xFFFF" data] by simp
  then show ?thesis by (simp add: crc16_def crc16_ccitt_def crc16_ccitt_false_def mask16_uint)
qed

lemma crc16_check_value:
  "crc16 (map of_nat [0x31, 0x32, 0x33, 0x34, 0x35, 0x36, 0x37, 0x38, 0x39]) = 0x29B1"
  by code_simp

text \<open>
  Claim C2. \<open>crc16_ccitt\<close> with its default polynomial 0x1021 and initial value
  0xFFFF computes, for every byte string, the CRC-16/CCITT-FALSE of the specification's
  description (each byte XORed into bits 8 to 15 of a 16-bit accumulator, then eight
  rounds of conditional shift and XOR, most significant bit first); and on the nine
  bytes of \<open>b"123456789"\<close> (0x31 to 0x39) the result is 0x29B1. The function is a
  function of its arguments alone.
\<close>

theorem crc16_ccitt_is_ccitt_false:
  "crc16_ccitt data 0x1021 0xFFFF = uint (crc16_ccitt_false data) \<and>
   crc16_ccitt (map of_nat [0x31, 0x32, 0x33, 0x34, 0x35, 0x36, 0x37, 0x38, 0x39]) 0x1021 0xFFFF
     = 0x29B1"
  using crc16_word[of data] crc16_check_value by (simp only: crc16_def)

subsection \<open>A changed byte changes the checksum\<close>

lemma spec_round_low_bit: "bit (spec_round w) 0 \<longleftrightarrow> bit w 15"
  by (simp add: spec_round_def bit_0 even_xor_iff)

lemma spec_round_inj: "spec_round x = spec_round y \<Longrightarrow> x = y"
proof -
  assume eq: "spec_round x = spec_round y"
  then have top: "bit x 15 \<longleftrightarrow> bit y 15"
    using spec_round_low_bit[of x] spec_round_low_bit[of y] by simp
  have sh: "push_bit 1 x = push_bit 1 y"
  proof (cases "bit x 15")
    case True
    then have "push_bit 1 x XOR 0x1021 = push_bit 1 y XOR 0x1021"
      using eq top by (simp add: spec_round_def)
    then have "(push_bit 1 x XOR 0x1021) XOR 0x1021 = (push_bit 1 y XOR 0x1021) XOR 0x1021"
      by (rule arg_cong)
    then show ?thesis by (simp only: xor.assoc xor_self_eq xor.right_neutral)
  next
    case False
    then show ?thesis using eq top by (simp add: spec_round_def)
  qed
  show "x = y"
  proof (rule bit_word_eqI)
    fix n assume n: "n < LENGTH(16)"
    show "bit x n \<longleftrightarrow> bit y n"
    proof (cases "n = 15")
      case True
      then show ?thesis using top by simp
    next
      case False
      then have "Suc n < 16" using n by simp
      then have "bit (push_bit 1 z) (Suc n) = bit z n" for z :: "16 word"
        unfolding bit_push_bit_iff by (simp add: possible_bit_word)
      then have "bit (push_bit 1 x) (Suc n) = bit x n" "bit (push_bit 1 y) (Suc n) = bit y n"
        by blast+
      then show ?thesis using sh by simp
    qed
  qed
qed


lemma xor_left_inj: "(a :: 16 word) XOR c = b XOR c \<Longrightarrow> a = b"
proof -
  assume "a XOR c = b XOR c"
  then have "(a XOR c) XOR c = (b XOR c) XOR c" by (rule arg_cong)
  then show ?thesis by (simp only: xor.assoc xor_self_eq xor.right_neutral)
qed

lemma spec_round_funpow_inj: "(spec_round ^^ n) x = (spec_round ^^ n) y \<Longrightarrow> x = y"
  by (induction n) (auto dest: spec_round_inj)

lemma high_byte_inj:
  "push_bit 8 (ucast (b :: byte) :: 16 word) = push_bit 8 (ucast b') \<Longrightarrow> b = b'"
proof -
  assume eq: "push_bit 8 (ucast b :: 16 word) = push_bit 8 (ucast b')"
  show "b = b'"
  proof (rule bit_word_eqI)
    fix n assume n: "n < LENGTH(8)"
    have "bit (push_bit 8 (ucast c :: 16 word)) (n + 8) = bit c n" for c :: byte
      unfolding bit_push_bit_iff using n by (simp add: possible_bit_word bit_ucast_iff)
    then show "bit b n \<longleftrightarrow> bit b' n" using eq by metis
  qed
qed

lemma spec_byte_inj_state: "spec_byte x b = spec_byte y b \<Longrightarrow> x = y"
  unfolding spec_byte_def by (blast dest: spec_round_funpow_inj xor_left_inj)

lemma spec_byte_inj_byte: "spec_byte w b = spec_byte w b' \<Longrightarrow> b = b'"
proof -
  assume "spec_byte w b = spec_byte w b'"
  then have "w XOR push_bit 8 (ucast b) = w XOR push_bit 8 (ucast b')"
    unfolding spec_byte_def by (rule spec_round_funpow_inj)
  then have "push_bit 8 (ucast b :: 16 word) = push_bit 8 (ucast b')"
    by (simp only: xor.commute[of w]) (rule xor_left_inj)
  then show ?thesis by (rule high_byte_inj)
qed

lemma spec_fold_inj: "foldl spec_byte x data = foldl spec_byte y data \<Longrightarrow> x = y"
  by (induction data arbitrary: x y) (auto dest: spec_byte_inj_state)

lemma crc16_single_byte:
  assumes "crc16 (pre @ b # post) = crc16 (pre @ b' # post)"
  shows "b = b'"
proof -
  have "crc16_ccitt_false (pre @ b # post) = crc16_ccitt_false (pre @ b' # post)"
    using assms unfolding crc16_word by (rule unsigned_word_eqI)
  then have "spec_byte (foldl spec_byte 0xFFFF pre) b = spec_byte (foldl spec_byte 0xFFFF pre) b'"
    unfolding crc16_ccitt_false_def by (simp only: foldl_append foldl_Cons) (rule spec_fold_inj)
  then show ?thesis by (rule spec_byte_inj_byte)
qed

section \<open>Resynchronisation after a checksum mismatch\<close>

lemma feed_loop_skip_noise:
  assumes found: "find_bytes HEADER buf = Some idx" and long: "6 \<le> length (drop idx buf)"
  shows "feed_loop buf res = feed_loop (drop idx buf) res"
proof -
  define buf1 where "buf1 = drop idx buf"
  have l: "\<not> length buf < 6" "\<not> length buf1 < 6" using long by (auto simp: buf1_def)
  have "take (length HEADER) buf1 = HEADER"
    using find_bytes_Some[OF found] by (simp add: buf1_def)
  then have "prefix HEADER buf1" by (simp only: take_eq_iff_prefix)
  then obtain r where "buf1 = HEADER @ r" by (auto simp: prefix_def)
  then have f1: "find_bytes HEADER buf1 = Some 0" by (simp add: find_header_front)
  show ?thesis
    unfolding buf1_def[symmetric]
    by (simp only: feed_loop_step[OF l(1) found] feed_loop_step[OF l(2) f1] buf1_def[symmetric] drop_0)
qed

lemma unpack_H_inj:
  assumes "length xs = 2" "length ys = 2" "unpack_H xs = unpack_H ys"
  shows "xs = ys"
proof -
  obtain a0 a1 where xs: "xs = [a0, a1]"
    using assms(1) by (cases xs; cases "tl xs") auto
  obtain b0 b1 where ys: "ys = [b0, b1]"
    using assms(2) by (cases ys; cases "tl ys") auto
  have r: "0 \<le> uint a0" "uint a0 < 256" "0 \<le> uint b0" "uint b0 < 256"
    using uint_lt2p[of a0] uint_lt2p[of b0] by simp_all
  have e: "uint a0 + 256 * uint a1 = uint b0 + 256 * uint b1"
    using assms(3) by (simp add: xs ys unpack_H_def)
  have "(uint a0 + 256 * uint a1) mod 256 = uint a0" "(uint b0 + 256 * uint b1) mod 256 = uint b0"
    using r by simp_all
  then have 0: "uint a0 = uint b0" using e by simp
  then have "uint a1 = uint b1" using e by simp
  then show ?thesis using 0 by (simp add: xs ys word_uint_eq_iff)
qed


lemma corrupted_frame_crc_mismatch:
  fixes payload :: "byte list" and ty b :: byte
  assumes len: "length payload \<le> 255"
  defines "W \<equiv> wire_frame ty payload"
  assumes i: "3 \<le> i" "i < length W" and b: "b \<noteq> W ! i"
  shows "crc16 (drop 2 (take (4 + length payload) (W[i := b]))) \<noteq>
         unpack_H (drop (4 + length payload) (W[i := b]))"
proof -
  define n where "n = length payload"
  define body where "body = of_nat n # ty # payload"
  define c where "c = crc16 body"
  have W: "W = HEADER @ body @ pack_H c"
    by (simp add: W_def wire_frame_def body_def c_def n_def)
  have lb: "length body = 2 + n" by (simp add: body_def n_def)
  have lh: "length HEADER = 2" by (simp add: HEADER_def)
  have cr: "unpack_H (pack_H c) = c"
    using crc16_range[of body] by (intro unpack_pack_H) (auto simp: c_def)
  show ?thesis
  proof (cases "i < 4 + n")
    case True
    define j where "j = i - 2"
    have j: "j < length body" "i = 2 + j" using True i(1) by (auto simp: j_def lb)
    have W': "W[i := b] = HEADER @ body[j := b] @ pack_H c"
      using j by (simp add: W list_update_append lh)
    have bj: "body ! j = W ! i" using j by (simp add: W nth_append lh)
    have d: "drop 2 (take (4 + n) (W[i := b])) = body[j := b]"
      by (simp add: W' lh lb)
    have e: "drop (4 + n) (W[i := b]) = pack_H c"
      by (simp add: W' lh lb)
    have "crc16 (body[j := b]) \<noteq> crc16 body"
    proof
      assume "crc16 (body[j := b]) = crc16 body"
      then have "crc16 (take j body @ b # drop (Suc j) body) =
                 crc16 (take j body @ body ! j # drop (Suc j) body)"
        using j(1) by (simp add: upd_conv_take_nth_drop id_take_nth_drop[symmetric])
      then have "b = body ! j" by (rule crc16_single_byte)
      then show False using b bj by simp
    qed
    then show ?thesis by (simp add: d e cr n_def[symmetric] c_def[symmetric])
  next
    case False
    define k where "k = i - (4 + n)"
    have k: "k < 2" "i = 4 + n + k"
      using False i(2) by (auto simp: k_def W lh lb length_pack_H)
    have W': "W[i := b] = HEADER @ body @ (pack_H c)[k := b]"
      using k by (simp add: W list_update_append lh lb)
    have bk: "pack_H c ! k = W ! i" using k by (simp add: W nth_append lh lb)
    have d: "drop 2 (take (4 + n) (W[i := b])) = body"
      by (simp add: W' lh lb)
    have e: "drop (4 + n) (W[i := b]) = (pack_H c)[k := b]"
      by (simp add: W' lh lb)
    have "unpack_H ((pack_H c)[k := b]) \<noteq> c"
    proof
      assume "unpack_H ((pack_H c)[k := b]) = c"
      then have "unpack_H ((pack_H c)[k := b]) = unpack_H (pack_H c)" by (simp add: cr)
      then have "(pack_H c)[k := b] = pack_H c"
        by (intro unpack_H_inj) (simp_all add: length_pack_H)
      then have "(pack_H c)[k := b] ! k = pack_H c ! k" by simp
      then have "b = pack_H c ! k" using k(1) by (simp add: length_pack_H)
      then show False using b bk by simp
    qed
    then show ?thesis using d e by (simp add: n_def[symmetric] c_def[symmetric])
  qed
qed


lemma crc_mismatch_drops_one_byte:
  assumes long: "6 \<le> length buf" and found: "find_bytes HEADER buf = Some idx"
    and buf1: "buf1 = drop idx buf"
    and total_len: "total_len = 6 + unat (buf1 ! 2)"
    and complete: "total_len \<le> length buf1"
    and frame: "frame = take total_len buf1"
    and mismatch: "crc16 (drop 2 (take (length frame - 2) frame)) \<noteq>
                   unpack_H (drop (length frame - 2) frame)"
  shows "feed_loop buf res = feed_loop (drop 1 buf1) res"
proof -
  have l: "\<not> length buf < 6" using long by simp
  have lf: "length frame = total_len" using complete by (simp add: frame)
  have step: "feed_loop buf res =
     (if length buf1 < 4 then (buf1, res)
      else if length buf1 < total_len then (buf1, res)
      else if crc16 (drop 2 (take (total_len - 2) frame)) \<noteq> unpack_H (drop (total_len - 2) frame)
      then feed_loop (drop 1 buf1) res
      else feed_loop (drop total_len buf1)
             (res @ (if frame ! 3 = 0x01
                     then decode_samples frame (drop 4 (take (total_len - 2) frame))
                     else [Unknown (uint (frame ! 3)) frame])))"
    unfolding frame total_len buf1 by (rule feed_loop_step[OF l found])
  have no: "\<not> length buf1 < 4" "\<not> length buf1 < total_len"
    using complete by (auto simp: total_len)
  show ?thesis using mismatch no by (simp add: step lf)
qed

lemma corrupted_then_valid:
  fixes p1 p2 :: "byte list" and t1 t2 b :: byte
  assumes l1: "length p1 \<le> 255" and l2: "length p2 \<le> 255"
  defines "F1 \<equiv> wire_frame t1 p1" and "F2 \<equiv> wire_frame t2 p2"
  assumes i: "i < length F1" "i \<noteq> 2" and b: "b \<noteq> F1 ! i"
    and clean: "find_bytes HEADER (drop 1 (F1[i := b]) @ F2) = Some (length F1 - 1)"
  shows "feed Parser_init (F1[i := b] @ F2) = (\<lparr>buffer = []\<rparr>, frame_output t2 p2)"
proof -
  define C where "C = F1[i := b]"
  have lF1: "length F1 = 6 + length p1" by (simp add: F1_def length_wire_frame)
  have lF2: "length F2 = 6 + length p2" by (simp add: F2_def length_wire_frame)
  have lC: "length C = length F1" by (simp add: C_def)
  have tail: "drop (length F1 - 1) (drop 1 C @ F2) = F2" using lC lF1 by simp
  have from_tail: "feed_loop (drop 1 C @ F2) [] = ([], frame_output t2 p2)"
  proof -
    have "feed_loop (drop 1 C @ F2) [] = feed_loop F2 []"
      using feed_loop_skip_noise[OF clean[folded C_def], of "[]"] lF2 by (simp only: tail)
    then show ?thesis using feed_loop_wire_frame_only[OF l2, of t2 "[]"] by (simp add: F2_def)
  qed
  have "feed_loop (C @ F2) [] = ([], frame_output t2 p2)"
  proof (cases "i < 2")
    case True
    have F1h: "take 2 F1 = HEADER" by (simp add: F1_def wire_frame_def HEADER_def)
    have "take 2 C \<noteq> HEADER"
    proof
      assume "take 2 C = HEADER"
      then have "take 2 C ! i = take 2 F1 ! i" using F1h by simp
      then show False using True b i(1) lF1 by (simp add: C_def)
    qed
    moreover have "length HEADER = 2" by (simp add: HEADER_def)
    ultimately have nohd: "take (length HEADER) (C @ F2) \<noteq> HEADER"
      using lC lF1 by simp
    obtain c cs where ccs: "C = c # cs" using lC lF1 by (cases C) auto
    have "find_bytes HEADER (C @ F2) = Some (Suc (length F1 - 1))"
      using nohd clean[folded C_def] by (simp add: ccs)
    then have f: "find_bytes HEADER (C @ F2) = Some (length F1)" using lF1 by simp
    have "feed_loop (C @ F2) [] = feed_loop (drop (length F1) (C @ F2)) []"
      using lC lF2 by (intro feed_loop_skip_noise[OF f]) simp
    also have "\<dots> = feed_loop F2 []" using lC by simp
    finally show ?thesis
      using feed_loop_wire_frame_only[OF l2, of t2 "[]"] by (simp add: F2_def)
  next
    case False
    then have i3: "3 \<le> i" using i(2) by simp
    have "take 2 F1 = HEADER" by (simp add: F1_def wire_frame_def HEADER_def)
    then have hd: "take 2 C = HEADER" using i3 by (simp add: C_def)
    then obtain r where "C = HEADER @ r"
      by (metis append_take_drop_id)
    then have f0: "find_bytes HEADER (C @ F2) = Some 0" by (simp add: find_header_front)
    have c2: "(C @ F2) ! 2 = F1 ! 2" using i3 lC lF1 by (simp add: nth_append C_def)
    have len2: "unat ((C @ F2) ! 2) = length p1"
      using wire_frame_parts(2)[OF l1, of t1] by (simp add: c2 F1_def)
    have tk: "take (4 + length p1) (C @ F2) = take (4 + length p1) C"
             "take (6 + length p1) (C @ F2) = C"
      using lC lF1 by simp_all
    have mis: "crc16 (drop 2 (take (4 + length p1) C)) \<noteq> unpack_H (drop (4 + length p1) C)"
      using corrupted_frame_crc_mismatch[OF l1 i3, of t1 b] i(1) b by (simp add: C_def F1_def)
    have "feed_loop (C @ F2) [] = feed_loop (drop 1 (C @ F2)) []"
      by (rule crc_mismatch_drops_one_byte[OF _ f0, where total_len = "6 + length p1" and frame = C])
         (use lC lF1 mis in \<open>simp_all add: len2 tk\<close>)
    also have "\<dots> = feed_loop (drop 1 C @ F2) []" using lC lF1 by simp
    finally show ?thesis by (simp only: from_tail)
  qed
  then show ?thesis by (simp add: feed_def Parser_init_def C_def)
qed

text \<open>
  Claim C3, as amended. First part, as stated: when the loop has located the header at
  \<open>idx\<close>, the whole candidate frame of \<open>total_len\<close> bytes is buffered and its stored
  little-endian CRC differs from the CRC computed over LEN, TYPE and payload, the loop
  goes on with the buffer from the header on less exactly its first byte, and with the
  same results. Second part, amended: for every valid frame \<open>F1\<close> with one byte changed
  at an index other than 2 (the LEN byte), followed at once by a valid frame \<open>F2\<close>,
  if the bytes after the first byte of the corrupted \<open>F1\<close> hold no header 0xAA 0x55
  before the start of \<open>F2\<close>, then feeding the concatenation to a fresh parser returns
  exactly the output of \<open>F2\<close>, nothing for \<open>F1\<close>, and leaves the buffer empty.
\<close>

theorem crc_mismatch_resync:
  fixes buf frame p1 p2 :: "byte list" and t1 t2 b :: byte
  shows "(6 \<le> length buf \<and> find_bytes HEADER buf = Some idx \<and>
          total_len = 6 + unat (drop idx buf ! 2) \<and> total_len \<le> length (drop idx buf) \<and>
          frame = take total_len (drop idx buf) \<and>
          crc16 (drop 2 (take (length frame - 2) frame)) \<noteq> unpack_H (drop (length frame - 2) frame)
          \<longrightarrow> feed_loop buf res = feed_loop (drop 1 (drop idx buf)) res) \<and>
         (length p1 \<le> 255 \<and> length p2 \<le> 255 \<and>
          i < length (wire_frame t1 p1) \<and> i \<noteq> 2 \<and> b \<noteq> wire_frame t1 p1 ! i \<and>
          find_bytes HEADER (drop 1 ((wire_frame t1 p1)[i := b]) @ wire_frame t2 p2)
            = Some (length (wire_frame t1 p1) - 1)
          \<longrightarrow> feed Parser_init ((wire_frame t1 p1)[i := b] @ wire_frame t2 p2)
                = (\<lparr>buffer = []\<rparr>, frame_output t2 p2))"
proof (intro conjI impI)
  assume a: "6 \<le> length buf \<and> find_bytes HEADER buf = Some idx \<and>
          total_len = 6 + unat (drop idx buf ! 2) \<and> total_len \<le> length (drop idx buf) \<and>
          frame = take total_len (drop idx buf) \<and>
          crc16 (drop 2 (take (length frame - 2) frame)) \<noteq> unpack_H (drop (length frame - 2) frame)"
  show "feed_loop buf res = feed_loop (drop 1 (drop idx buf)) res"
  proof (rule crc_mismatch_drops_one_byte[where total_len = total_len and frame = frame])
    show "6 \<le> length buf" using a by blast
    show "find_bytes HEADER buf = Some idx" using a by blast
    show "drop idx buf = drop idx buf" by (rule refl)
    show "total_len = 6 + unat (drop idx buf ! 2)" using a by blast
    show "total_len \<le> length (drop idx buf)" using a by blast
    show "frame = take total_len (drop idx buf)" using a by blast
    show "crc16 (drop 2 (take (length frame - 2) frame)) \<noteq> unpack_H (drop (length frame - 2) frame)"
      using a by blast
  qed
next
  assume a: "length p1 \<le> 255 \<and> length p2 \<le> 255 \<and>
          i < length (wire_frame t1 p1) \<and> i \<noteq> 2 \<and> b \<noteq> wire_frame t1 p1 ! i \<and>
          find_bytes HEADER (drop 1 ((wire_frame t1 p1)[i := b]) @ wire_frame t2 p2)
            = Some (length (wire_frame t1 p1) - 1)"
  show "feed Parser_init ((wire_frame t1 p1)[i := b] @ wire_frame t2 p2)
                = (\<lparr>buffer = []\<rparr>, frame_output t2 p2)"
    by (rule corrupted_then_valid) (use a in \<open>simp_all\<close>)
qed

theorem crc_mismatch_resync_witness:
  "feed_loop ([0xAA, 0x55, 0, 2, 46, 13] @ [0xAA, 0x55, 4, 1, 1, 0, 2, 0, 54, 178]) [] =
     feed_loop (drop 1 ([0xAA, 0x55, 0, 2, 46, 13] @ [0xAA, 0x55, 4, 1, 1, 0, 2, 0, 54, 178])) [] \<and>
   wire_frame 1 [] = [0xAA, 0x55, 0, 1, 46, 13] \<and>
   wire_frame 1 (pack_samples [(1, 2)]) = [0xAA, 0x55, 4, 1, 1, 0, 2, 0, 54, 178] \<and>
   feed Parser_init ([0xAA, 0x55, 0, 2, 46, 13] @ [0xAA, 0x55, 4, 1, 1, 0, 2, 0, 54, 178]) =
     (\<lparr>buffer = []\<rparr>, [Sample 1 2 [0xAA, 0x55, 4, 1, 1, 0, 2, 0, 54, 178]])"
proof -
  define C :: "byte list" where "C = [0xAA, 0x55, 0, 2, 46, 13]"
  define F2 :: "byte list" where "F2 = [0xAA, 0x55, 4, 1, 1, 0, 2, 0, 54, 178]"
  have F1: "wire_frame 1 [] = [0xAA, 0x55, 0, 1, 46, 13]" by code_simp
  have F2: "wire_frame 1 (pack_samples [(1, 2)]) = F2" unfolding F2_def by code_simp
  have C: "(wire_frame 1 [])[3 := 2] = C" by (simp add: F1 C_def)
  have h1: "6 \<le> length (C @ F2)" by (simp add: C_def F2_def)
  have h2: "find_bytes HEADER (C @ F2) = Some 0" by (simp add: C_def HEADER_def)
  have h3: "(6 :: nat) = 6 + unat (drop 0 (C @ F2) ! 2)" by (simp add: C_def)
  have h4: "6 \<le> length (drop 0 (C @ F2))" by (simp add: C_def)
  have h5: "C = take 6 (drop 0 (C @ F2))" by (simp add: C_def)
  have h6: "crc16 (drop 2 (take (length C - 2) C)) \<noteq> unpack_H (drop (length C - 2) C)"
    unfolding C_def by code_simp
  have g1: "length ([] :: byte list) \<le> 255" "length (pack_samples [(1, 2)]) \<le> 255"
    by (simp_all add: length_pack_H)
  have g2: "3 < length (wire_frame 1 [])" "(3 :: nat) \<noteq> 2" "2 \<noteq> wire_frame 1 [] ! 3"
    by (simp_all add: F1)
  have g3: "find_bytes HEADER (drop 1 ((wire_frame 1 [])[3 := 2]) @ wire_frame 1 (pack_samples [(1, 2)]))
              = Some (length (wire_frame 1 []) - 1)"
    unfolding C F2 by (simp add: F1 C_def F2_def HEADER_def)
  have out: "frame_output 1 (pack_samples [(1, 2)]) = [Sample 1 2 F2]"
    by (simp add: frame_output_def F2 decode_pack_samples mask16_id del: pack_samples.simps)
  note T = crc_mismatch_resync[where buf = "C @ F2" and idx = 0 and total_len = 6 and frame = C
      and res = "[]" and ?p1.0 = "[]" and ?p2.0 = "pack_samples [(1, 2)]" and ?t1.0 = 1
      and ?t2.0 = 1 and i = 3 and b = 2]
  have "feed_loop (C @ F2) [] = feed_loop (drop 1 (drop 0 (C @ F2))) []"
    using T[THEN conjunct1] h1 h2 h3 h4 h5 h6 by blast
  then have p1: "feed_loop (C @ F2) [] = feed_loop (drop 1 (C @ F2)) []"
    by (simp only: drop_0)
  have "feed Parser_init ((wire_frame 1 [])[3 := 2] @ wire_frame 1 (pack_samples [(1, 2)])) =
          (\<lparr>buffer = []\<rparr>, frame_output 1 (pack_samples [(1, 2)]))"
    using T[THEN conjunct2] g1 g2 g3 by blast
  then have p2: "feed Parser_init (C @ F2) = (\<lparr>buffer = []\<rparr>, [Sample 1 2 F2])"
    by (simp only: C F2 out)
  show ?thesis using p1 p2 F1 F2 unfolding C_def F2_def by blast
qed

text \<open>
  Claim C3 as stated fails when the changed byte is the LEN byte: the empty valid frame
  with LEN changed from 0 to 0xFF announces 261 bytes, the loop waits for them, and the
  samples of the valid frame that follows are not returned.
\<close>

theorem corrupted_length_blocks_next_frame:
  "wire_frame 1 [] ! 2 \<noteq> 0xFF \<and>
   snd (feed Parser_init ((wire_frame 1 [])[2 := 0xFF] @ wire_frame 1 (pack_samples [(1, 2)]))) = [] \<and>
   snd (feed Parser_init (wire_frame 1 (pack_samples [(1, 2)]))) =
     [Sample 1 2 (wire_frame 1 (pack_samples [(1, 2)]))]"
proof -
  have F1: "wire_frame 1 [] = [0xAA, 0x55, 0, 1, 46, 13]" by code_simp
  have F2: "wire_frame 1 (pack_samples [(1, 2)]) = [0xAA, 0x55, 4, 1, 1, 0, 2, 0, 54, 178]"
    by code_simp
  have a: "feed_loop ([0xAA, 0x55, 0xFF, 1, 46, 13] @ [0xAA, 0x55, 4, 1, 1, 0, 2, 0, 54, 178]) [] =
           ([0xAA, 0x55, 0xFF, 1, 46, 13] @ [0xAA, 0x55, 4, 1, 1, 0, 2, 0, 54, 178], [])"
    by (subst feed_loop.simps) (simp add: HEADER_def HEADER_LEN_def)
  have b: "snd (feed Parser_init (wire_frame 1 (pack_samples [(1, 2)]))) =
           frame_output 1 (pack_samples [(1, 2)])"
    using feed_loop_wire_frame_only[of "pack_samples [(1, 2)]" 1 "[]"]
    by (simp add: feed_def Parser_init_def length_pack_H)
  have c: "frame_output 1 (pack_samples [(1, 2)]) = [Sample 1 2 (wire_frame 1 (pack_samples [(1, 2)]))]"
    by (simp add: frame_output_def decode_pack_samples mask16_id del: pack_samples.simps)
  have d: "snd (feed Parser_init ((wire_frame 1 [])[2 := 0xFF] @ wire_frame 1 (pack_samples [(1, 2)]))) = []"
    using a by (simp add: F1 F2 feed_def Parser_init_def del: pack_samples.simps)
  have e: "wire_frame 1 [] ! 2 \<noteq> 0xFF" by (simp add: F1)
  show ?thesis using b c d e by (simp only: simp_thms)
qed

text \<open>
  The condition on header-like byte pairs is needed as well. A valid frame whose payload
  holds the bytes 0xAA 0x55 0xFF (the sample \<open>(0x55AA, 0x01FF)\<close>), with its TYPE byte
  changed, fails the CRC test; after the one-byte drop the search finds the pair inside
  the payload, reads 0xFF as a length, and waits: the valid frame behind it is not
  returned.
\<close>

lemma header_inside_payload_blocks_next_frame:
  "wire_frame 1 (pack_samples [(0x55AA, 0x01FF)]) ! 3 \<noteq> 2 \<and>
   snd (feed Parser_init ((wire_frame 1 (pack_samples [(0x55AA, 0x01FF)]))[3 := 2]
                            @ wire_frame 1 (pack_samples [(1, 2)]))) = []"
  by code_simp

section \<open>Peak detection\<close>

subsection \<open>The scan\<close>

lemma scan_peaks_acc:
  "scan_peaks vs thr m idxs last_peak acc = acc @ scan_peaks vs thr m idxs last_peak []"
proof (induction idxs arbitrary: last_peak acc)
  case Nil
  then show ?case by simp
next
  case (Cons i rest)
  show ?case
    using Cons.IH[of last_peak acc] Cons.IH[of "int i" "acc @ [i]"] Cons.IH[of "int i" "[i]"]
    by (simp add: Let_def)
qed

lemma scan_peaks_subset: "set (scan_peaks vs thr m idxs last_peak []) \<subseteq> set idxs"
proof (induction idxs arbitrary: last_peak)
  case Nil
  then show ?case by simp
next
  case (Cons i rest)
  have "set (scan_peaks vs thr m rest (int i) [i]) \<subseteq> insert i (set rest)"
    using scan_peaks_acc[of vs thr m rest "int i" "[i]"] Cons.IH[of "int i"] by auto
  then show ?case using Cons.IH[of last_peak] by (auto simp: Let_def)
qed

lemma scan_peaks_Cons:
  "scan_peaks vs thr m (i # rest) last_peak [] =
     (if accepts vs thr m last_peak i then i # scan_peaks vs thr m rest (int i) []
      else scan_peaks vs thr m rest last_peak [])"
  using scan_peaks_acc[of vs thr m rest "int i" "[i]"]
  by (auto simp: accepts_def Let_def)

lemma scan_peaks_spacing:
  assumes "sorted_wrt (<) idxs" "\<forall>i \<in> set idxs. last_peak < int i"
  shows "sorted_wrt (\<lambda>a b. int b - int a \<ge> m) (scan_peaks vs thr m idxs last_peak []) \<and>
         (\<forall>r \<in> set (scan_peaks vs thr m idxs last_peak []). int r - last_peak \<ge> m)"
  using assms
proof (induction idxs arbitrary: last_peak)
  case Nil
  then show ?case by simp
next
  case (Cons i rest)
  have s: "sorted_wrt (<) rest" and gt: "\<forall>j \<in> set rest. i < j" and li: "last_peak < int i"
    using Cons.prems by auto
  show ?case
  proof (cases "accepts vs thr m last_peak i")
    case True
    have "\<forall>j \<in> set rest. int i < int j" using gt by simp
    from Cons.IH[OF s this]
    have ih: "sorted_wrt (\<lambda>a b. int b - int a \<ge> m) (scan_peaks vs thr m rest (int i) [])"
      "\<forall>r \<in> set (scan_peaks vs thr m rest (int i) []). int r - int i \<ge> m" by auto
    have "int i - last_peak \<ge> m" using True by (simp add: accepts_def)
    moreover have "\<forall>r \<in> set (scan_peaks vs thr m rest (int i) []). int r - last_peak \<ge> m"
      using ih(2) li by fastforce
    ultimately show ?thesis using True ih by (simp add: scan_peaks_Cons del: scan_peaks.simps)
  next
    case False
    have "\<forall>j \<in> set rest. last_peak < int j" using Cons.prems by auto
    from Cons.IH[OF s this] show ?thesis using False by (simp add: scan_peaks_Cons del: scan_peaks.simps)
  qed
qed

lemma scan_peaks_characterised:
  assumes "sorted_wrt (<) idxs" "\<forall>i \<in> set idxs. last_peak < int i" "j \<in> set idxs"
  shows "j \<in> set (scan_peaks vs thr m idxs last_peak []) \<longleftrightarrow>
         vs ! j > thr \<and> vs ! j > vs ! (j - 1) \<and> vs ! j \<ge> vs ! (j + 1) \<and>
         int j - last_peak \<ge> m \<and>
         (\<forall>p \<in> set (scan_peaks vs thr m idxs last_peak []). p < j \<longrightarrow> int j - int p \<ge> m)"
  using assms
proof (induction idxs arbitrary: last_peak)
  case Nil
  then show ?case by simp
next
  case (Cons i rest)
  have s: "sorted_wrt (<) rest" and gt: "\<forall>k \<in> set rest. i < k" and li: "last_peak < int i"
    using Cons.prems by auto
  define R where "R = scan_peaks vs thr m rest (int i) []"
  define R0 where "R0 = scan_peaks vs thr m rest last_peak []"
  have subR: "set R \<subseteq> set rest" and subR0: "set R0 \<subseteq> set rest"
    unfolding R_def R0_def by (rule scan_peaks_subset)+
  show ?case
  proof (cases "accepts vs thr m last_peak i")
    case acc: True
    have res: "scan_peaks vs thr m (i # rest) last_peak [] = i # R"
      using acc by (simp add: scan_peaks_Cons R_def del: scan_peaks.simps)
    show ?thesis
    proof (cases "j = i")
      case True
      have "\<forall>p \<in> set (i # R). \<not> p < i" using subR gt by (auto dest: subsetD order_less_asym)
      then show ?thesis using acc True unfolding res by (auto simp: accepts_def)
    next
      case False
      then have jr: "j \<in> set rest" using Cons.prems(3) by simp
      then have ij: "i < j" using gt by simp
      have "\<forall>k \<in> set rest. int i < int k" using gt by simp
      from Cons.IH[OF s this jr, folded R_def]
      have ih: "j \<in> set R \<longleftrightarrow>
         vs ! j > thr \<and> vs ! j > vs ! (j - 1) \<and> vs ! j \<ge> vs ! (j + 1) \<and>
         int j - int i \<ge> m \<and> (\<forall>p \<in> set R. p < j \<longrightarrow> int j - int p \<ge> m)" .
      have "int j - int i \<ge> m \<Longrightarrow> int j - last_peak \<ge> m" using li by linarith
      then show ?thesis unfolding res using ih False ij by auto
    qed
  next
    case rej: False
    have res: "scan_peaks vs thr m (i # rest) last_peak [] = R0"
      using rej by (simp add: scan_peaks_Cons R0_def del: scan_peaks.simps)
    show ?thesis
    proof (cases "j = i")
      case True
      have "i \<notin> set R0" using subR0 gt by (auto dest: subsetD)
      then show ?thesis using rej True unfolding res by (auto simp: accepts_def)
    next
      case False
      then have jr: "j \<in> set rest" using Cons.prems(3) by simp
      have "\<forall>k \<in> set rest. last_peak < int k" using Cons.prems by auto
      from Cons.IH[OF s this jr, folded R0_def] show ?thesis unfolding res .
    qed
  qed
qed

subsection \<open>The whole function\<close>

lemma py_min_Min: "xs \<noteq> [] \<Longrightarrow> py_min xs = Min (set xs)"
  by (cases xs) (simp_all add: py_min_def Min.set_eq_fold[symmetric])

lemma py_max_Max: "xs \<noteq> [] \<Longrightarrow> py_max xs = Max (set xs)"
  by (cases xs) (simp_all add: py_max_def Max.set_eq_fold[symmetric])

lemma min_interval_points_pos: "1 \<le> min_interval_points w fs"
  by (simp add: min_interval_points_def)

lemma detect_r_peaks_scan:
  assumes "\<not> length raw_data < 3" "\<not> py_max raw_data - py_min raw_data \<le> 1 / 10 ^ 9"
  shows "detect_r_peaks w raw_data fs =
         scan_peaks raw_data (peak_threshold w raw_data) (min_interval_points w fs)
           [1..<length raw_data - 1] (- min_interval_points w fs * 2) []"
  using assms by (simp add: detect_r_peaks_def Let_def)

lemma detect_r_peaks_empty:
  "length raw_data < 3 \<or> py_max raw_data - py_min raw_data \<le> 1 / 10 ^ 9 \<Longrightarrow>
   detect_r_peaks w raw_data fs = []"
  by (auto simp: detect_r_peaks_def Let_def)

text \<open>
  Claim C9. For every window configuration, every input list of \<open>n\<close> values and every
  \<open>fs\<close>, the list \<open>detect_r_peaks\<close> returns is strictly increasing, each returned index
  \<open>i\<close> satisfies \<open>1 \<le> i \<le> n - 2\<close> (written \<open>i + 2 \<le> n\<close>), and two consecutive
  returned indices differ by at least
  \<open>max 1 (round (min_r_interval * effective_fs))\<close>.
\<close>

theorem detect_r_peaks_indices:
  fixes w :: MainWindow and raw_data :: "real list" and fs :: real
  defines "R \<equiv> detect_r_peaks w raw_data fs"
  defines "m \<equiv> max 1 (py_round (min_r_interval w * effective_fs w fs))"
  shows "sorted_wrt (<) R \<and>
         (\<forall>i \<in> set R. 1 \<le> i \<and> i + 2 \<le> length raw_data) \<and>
         (\<forall>k. Suc k < length R \<longrightarrow> int (R ! Suc k) - int (R ! k) \<ge> m)"
proof (cases "length raw_data < 3 \<or> py_max raw_data - py_min raw_data \<le> 1 / 10 ^ 9")
  case True
  then have "R = []" unfolding R_def by (rule detect_r_peaks_empty)
  then show ?thesis by simp
next
  case False
  have m: "m = min_interval_points w fs" by (simp add: m_def min_interval_points_def)
  have m1: "1 \<le> m" by (simp add: m_def)
  have R: "R = scan_peaks raw_data (peak_threshold w raw_data) m [1..<length raw_data - 1] (- m * 2) []"
    unfolding R_def m using False by (intro detect_r_peaks_scan) auto
  have below: "\<forall>i \<in> set [1..<length raw_data - 1]. - m * 2 < int i" using m1 by auto
  have sp: "sorted_wrt (\<lambda>a b. int b - int a \<ge> m) R"
    unfolding R using scan_peaks_spacing[OF sorted_wrt_upt below] by blast
  have "sorted_wrt (<) R"
    by (rule sorted_wrt_mono_rel[OF _ sp]) (use m1 in auto)
  moreover have "set R \<subseteq> set [1..<length raw_data - 1]" unfolding R by (rule scan_peaks_subset)
  then have "\<forall>i \<in> set R. 1 \<le> i \<and> i + 2 \<le> length raw_data" by fastforce
  moreover have "\<forall>k. Suc k < length R \<longrightarrow> int (R ! Suc k) - int (R ! k) \<ge> m"
    using sorted_wrt_nth_less[OF sp] by simp
  ultimately show ?thesis by (intro conjI)
qed

theorem detect_r_peaks_indices_witness:
  "detect_r_peaks MainWindow_init [0, 1, 0, 1, 0, 1, 0] 4 = [1, 3, 5] \<and>
   Suc 0 < length (detect_r_peaks MainWindow_init [0, 1, 0, 1, 0, 1, 0] 4) \<and>
   max 1 (py_round (min_r_interval MainWindow_init * effective_fs MainWindow_init 4)) = 2 \<and>
   int (detect_r_peaks MainWindow_init [0, 1, 0, 1, 0, 1, 0] 4 ! Suc 0)
     - int (detect_r_peaks MainWindow_init [0, 1, 0, 1, 0, 1, 0] 4 ! 0)
     \<ge> max 1 (py_round (min_r_interval MainWindow_init * effective_fs MainWindow_init 4))"
proof -
  have R: "detect_r_peaks MainWindow_init [0, 1, 0, 1, 0, 1, 0] 4 = [1, 3, 5]" by code_simp
  have l: "Suc 0 < length (detect_r_peaks MainWindow_init [0, 1, 0, 1, 0, 1, 0] 4)"
    by (simp add: R)
  have m: "max 1 (py_round (min_r_interval MainWindow_init * effective_fs MainWindow_init 4)) = 2"
    by (simp add: MainWindow_init_def effective_fs_def py_round_def)
  from detect_r_peaks_indices[of MainWindow_init "[0, 1, 0, 1, 0, 1, 0]" 4] l
  have "int (detect_r_peaks MainWindow_init [0, 1, 0, 1, 0, 1, 0] 4 ! Suc 0)
     - int (detect_r_peaks MainWindow_init [0, 1, 0, 1, 0, 1, 0] 4 ! 0)
     \<ge> max 1 (py_round (min_r_interval MainWindow_init * effective_fs MainWindow_init 4))"
    by blast
  with R l m show ?thesis by blast
qed

text \<open>
  Claim C5, as amended. \<open>detect_r_peaks\<close> returns the empty list when there are fewer
  than 3 values or when \<open>max - min \<le> 1e-9\<close>. Otherwise an index \<open>i\<close> is returned exactly
  when \<open>1 \<le> i \<le> n - 2\<close>, the value at \<open>i\<close> is above the threshold, above its left
  neighbour, not below its right neighbour (a tie on the right counts, a tie on the left
  does not), and \<open>i\<close> is at least \<open>m\<close> past every index returned before it, hence past
  the last one, the returned list being increasing. Here
  \<open>m = max 1 (round (min_r_interval * rate))\<close>, where \<open>rate\<close> is \<open>fs\<close> itself when
  \<open>fs > 0\<close>, and for \<open>fs \<le> 0\<close> the configured sampling rate when that is positive and
  120 otherwise. The values and the threshold are real numbers here.
\<close>

theorem detect_r_peaks_accepts:
  fixes w :: MainWindow and raw_data :: "real list" and fs :: real
  defines "R \<equiv> detect_r_peaks w raw_data fs"
  defines "rate \<equiv> (if 0 < fs then fs
                    else if 0 < sampling_rate w then real_of_int (sampling_rate w)
                    else 120)"
  defines "m \<equiv> max 1 (py_round (min_r_interval w * rate))"
  shows "(length raw_data < 3 \<or> Max (set raw_data) - Min (set raw_data) \<le> 1 / 10 ^ 9 \<longrightarrow> R = []) \<and>
         (\<not> length raw_data < 3 \<and> \<not> Max (set raw_data) - Min (set raw_data) \<le> 1 / 10 ^ 9 \<longrightarrow>
            (\<forall>i. i \<in> set R \<longleftrightarrow>
                1 \<le> i \<and> i + 2 \<le> length raw_data \<and>
                raw_data ! i > peak_threshold w raw_data \<and>
                raw_data ! i > raw_data ! (i - 1) \<and> raw_data ! i \<ge> raw_data ! (i + 1) \<and>
                (\<forall>p \<in> set R. p < i \<longrightarrow> int i - int p \<ge> m))) \<and>
         (0 < fs \<longrightarrow> m = max 1 (py_round (min_r_interval w * fs))) \<and>
         (fs \<le> 0 \<and> 0 < sampling_rate w \<longrightarrow>
            m = max 1 (py_round (min_r_interval w * real_of_int (sampling_rate w)))) \<and>
         (fs \<le> 0 \<and> sampling_rate w \<le> 0 \<longrightarrow> m = max 1 (py_round (min_r_interval w * 120)))"
proof (intro conjI impI)
  assume a: "length raw_data < 3 \<or> Max (set raw_data) - Min (set raw_data) \<le> 1 / 10 ^ 9"
  show "R = []"
  proof (cases "length raw_data < 3")
    case True
    then show ?thesis unfolding R_def by (intro detect_r_peaks_empty) simp
  next
    case False
    then have "raw_data \<noteq> []" by auto
    then show ?thesis unfolding R_def using a
      by (intro detect_r_peaks_empty) (simp add: py_max_Max py_min_Min)
  qed
next
  assume a: "\<not> length raw_data < 3 \<and> \<not> Max (set raw_data) - Min (set raw_data) \<le> 1 / 10 ^ 9"
  then have ne: "raw_data \<noteq> []" by auto
  have "rate = effective_fs w fs" by (auto simp: rate_def effective_fs_def)
  then have m: "m = min_interval_points w fs" by (simp add: m_def min_interval_points_def)
  have m1: "1 \<le> m" by (simp add: m_def)
  define idxs where "idxs = [1..<length raw_data - 1]"
  have R: "R = scan_peaks raw_data (peak_threshold w raw_data) m idxs (- m * 2) []"
    unfolding R_def m idxs_def using a ne
    by (intro detect_r_peaks_scan) (simp_all add: py_max_Max py_min_Min)
  have srt: "sorted_wrt (<) idxs" by (simp add: idxs_def)
  have below: "\<forall>i \<in> set idxs. - m * 2 < int i" using m1 by auto
  have sub: "set R \<subseteq> set idxs" unfolding R by (rule scan_peaks_subset)
  have mem: "i \<in> set idxs \<longleftrightarrow> 1 \<le> i \<and> i + 2 \<le> length raw_data" for i
    by (auto simp: idxs_def)
  show "\<forall>i. i \<in> set R \<longleftrightarrow>
                1 \<le> i \<and> i + 2 \<le> length raw_data \<and>
                raw_data ! i > peak_threshold w raw_data \<and>
                raw_data ! i > raw_data ! (i - 1) \<and> raw_data ! i \<ge> raw_data ! (i + 1) \<and>
                (\<forall>p \<in> set R. p < i \<longrightarrow> int i - int p \<ge> m)"
  proof
    fix i
    show "i \<in> set R \<longleftrightarrow>
                1 \<le> i \<and> i + 2 \<le> length raw_data \<and>
                raw_data ! i > peak_threshold w raw_data \<and>
                raw_data ! i > raw_data ! (i - 1) \<and> raw_data ! i \<ge> raw_data ! (i + 1) \<and>
                (\<forall>p \<in> set R. p < i \<longrightarrow> int i - int p \<ge> m)"
    proof (cases "i \<in> set idxs")
      case True
      have far: "int i - (- m * 2) \<ge> m" using m1 by simp
      have bounds: "1 \<le> i" "i + 2 \<le> length raw_data" using True by (simp_all only: mem)
      note ch = scan_peaks_characterised[OF srt below True, where vs = raw_data
          and thr = "peak_threshold w raw_data" and m = m, folded R]
      show ?thesis by (simp only: ch far bounds simp_thms)
    next
      case False
      then have "i \<notin> set R" using sub by blast
      moreover have "\<not> (1 \<le> i \<and> i + 2 \<le> length raw_data)" using False mem by blast
      ultimately show ?thesis by blast
    qed
  qed
next
  assume "0 < fs"
  then show "m = max 1 (py_round (min_r_interval w * fs))" by (simp add: m_def rate_def)
next
  assume "fs \<le> 0 \<and> 0 < sampling_rate w"
  then show "m = max 1 (py_round (min_r_interval w * real_of_int (sampling_rate w)))"
    by (simp add: m_def rate_def)
next
  assume "fs \<le> 0 \<and> sampling_rate w \<le> 0"
  then show "m = max 1 (py_round (min_r_interval w * 120))"
    by (simp add: m_def rate_def)
qed

theorem detect_r_peaks_accepts_witness:
  "(length [1, 1, 1 :: real] < 3 \<or> Max (set [1, 1, 1 :: real]) - Min (set [1, 1, 1]) \<le> 1 / 10 ^ 9) \<and>
   detect_r_peaks MainWindow_init [1, 1, 1] 4 = [] \<and>
   \<not> length [0, 1, 0, 1, 0, 1, 0 :: real] < 3 \<and>
   \<not> Max (set [0, 1, 0, 1, 0, 1, 0 :: real]) - Min (set [0, 1, 0, 1, 0, 1, 0]) \<le> 1 / 10 ^ 9 \<and>
   3 \<in> set (detect_r_peaks MainWindow_init [0, 1, 0, 1, 0, 1, 0] 4) \<and>
   [0, 1, 0, 1, 0, 1, 0] ! 3 > peak_threshold MainWindow_init [0, 1, 0, 1, 0, 1, 0] \<and>
   (0 :: real) \<le> 0 \<and> 0 < sampling_rate MainWindow_init \<and>
   \<not> length [0, 1, 0, 1, 0 :: real] < 3 \<and>
   \<not> Max (set [0, 1, 0, 1, 0 :: real]) - Min (set [0, 1, 0, 1, 0]) \<le> 1 / 10 ^ 9 \<and>
   1 \<in> set (detect_r_peaks MainWindow_init [0, 1, 0, 1, 0] 0) \<and>
   3 \<notin> set (detect_r_peaks MainWindow_init [0, 1, 0, 1, 0] 0) \<and>
   sampling_rate (MainWindow_init\<lparr>sampling_rate := 0\<rparr>) \<le> 0 \<and>
   3 \<notin> set (detect_r_peaks (MainWindow_init\<lparr>sampling_rate := 0\<rparr>) [0, 1, 0, 1, 0] 0)"
proof -
  note T1 = detect_r_peaks_accepts[of "[1, 1, 1]" MainWindow_init 4]
  note T2 = detect_r_peaks_accepts[of "[0, 1, 0, 1, 0, 1, 0]" MainWindow_init 4]
  have flat: "length [1, 1, 1 :: real] < 3 \<or>
              Max (set [1, 1, 1 :: real]) - Min (set [1, 1, 1]) \<le> 1 / 10 ^ 9"
    by simp
  have e: "detect_r_peaks MainWindow_init [1, 1, 1] 4 = []"
    using T1 flat by blast
  have n3: "\<not> length [0, 1, 0, 1, 0, 1, 0 :: real] < 3" by simp
  have amp: "\<not> Max (set [0, 1, 0, 1, 0, 1, 0 :: real]) - Min (set [0, 1, 0, 1, 0, 1, 0]) \<le> 1 / 10 ^ 9"
    by simp
  have R: "detect_r_peaks MainWindow_init [0, 1, 0, 1, 0, 1, 0] 4 = [1, 3, 5]" by code_simp
  have mem: "3 \<in> set (detect_r_peaks MainWindow_init [0, 1, 0, 1, 0, 1, 0] 4)" by (simp add: R)
  have thr: "[0, 1, 0, 1, 0, 1, 0] ! 3 > peak_threshold MainWindow_init [0, 1, 0, 1, 0, 1, 0]"
    using T2 n3 amp mem by blast
  have z: "(0 :: real) \<le> 0" by simp
  have sr: "0 < sampling_rate MainWindow_init" by (simp add: MainWindow_init_def)
  have n5: "\<not> length [0, 1, 0, 1, 0 :: real] < 3" by simp
  have amp5: "\<not> Max (set [0, 1, 0, 1, 0 :: real]) - Min (set [0, 1, 0, 1, 0]) \<le> 1 / 10 ^ 9"
    by simp
  have z0: "sampling_rate (MainWindow_init\<lparr>sampling_rate := 0\<rparr>) \<le> 0" by simp
  have both: "1 \<in> set (detect_r_peaks w' [0, 1, 0, 1, 0] 0) \<and>
              3 \<notin> set (detect_r_peaks w' [0, 1, 0, 1, 0] 0)"
    if th: "[0, 1, 0, 1, 0] ! 1 > peak_threshold w' [0, 1, 0, 1, 0]"
      and fr: "\<not> int 3 - int 1 \<ge> max 1 (py_round (min_r_interval w' *
                 (if (0 :: real) < 0 then 0
                  else if 0 < sampling_rate w' then real_of_int (sampling_rate w') else 120)))"
    for w' :: MainWindow
  proof -
    note T = detect_r_peaks_accepts[of "[0, 1, 0, 1, 0]" w' 0, THEN conjunct2, THEN conjunct1,
        rule_format, OF conjI[OF n5 amp5]]
    have lo: "p \<in> set (detect_r_peaks w' [0, 1, 0, 1, 0] 0) \<Longrightarrow> 1 \<le> p" for p
      using T[of p] by blast
    have none: "\<forall>p \<in> set (detect_r_peaks w' [0, 1, 0, 1, 0] 0). p < 1 \<longrightarrow>
                  int 1 - int p \<ge> max 1 (py_round (min_r_interval w' *
                 (if (0 :: real) < 0 then 0
                  else if 0 < sampling_rate w' then real_of_int (sampling_rate w') else 120)))"
      using lo by fastforce
    have one: "1 \<in> set (detect_r_peaks w' [0, 1, 0, 1, 0] 0)"
      using T[of 1] th none by simp
    have "3 \<notin> set (detect_r_peaks w' [0, 1, 0, 1, 0] 0)"
    proof
      assume "3 \<in> set (detect_r_peaks w' [0, 1, 0, 1, 0] 0)"
      then have "\<forall>p \<in> set (detect_r_peaks w' [0, 1, 0, 1, 0] 0). p < 3 \<longrightarrow>
                  int 3 - int p \<ge> max 1 (py_round (min_r_interval w' *
                 (if (0 :: real) < 0 then 0
                  else if 0 < sampling_rate w' then real_of_int (sampling_rate w') else 120)))"
        using T[of 3] by blast
      then show False using one fr by auto
    qed
    with one show ?thesis by blast
  qed
  have p54: "py_round 54 = 54" by (simp add: py_round_def)
  have thA: "[0, 1, 0, 1, 0] ! 1 > peak_threshold MainWindow_init [0, 1, 0, 1, 0]"
    by (simp add: peak_threshold_def py_min_def py_max_def MainWindow_init_def)
  have frA: "\<not> int 3 - int 1 \<ge> max 1 (py_round (min_r_interval MainWindow_init *
                 (if (0 :: real) < 0 then 0
                  else if 0 < sampling_rate MainWindow_init
                       then real_of_int (sampling_rate MainWindow_init) else 120)))"
    by (simp add: MainWindow_init_def p54)
  have a: "1 \<in> set (detect_r_peaks MainWindow_init [0, 1, 0, 1, 0] 0) \<and>
           3 \<notin> set (detect_r_peaks MainWindow_init [0, 1, 0, 1, 0] 0)"
    using thA frA by (rule both)
  have thB: "[0, 1, 0, 1, 0] ! 1 >
             peak_threshold (MainWindow_init\<lparr>sampling_rate := 0\<rparr>) [0, 1, 0, 1, 0]"
    by (simp add: peak_threshold_def py_min_def py_max_def MainWindow_init_def)
  have frB: "\<not> int 3 - int 1 \<ge>
               max 1 (py_round (min_r_interval (MainWindow_init\<lparr>sampling_rate := 0\<rparr>) *
                 (if (0 :: real) < 0 then 0
                  else if 0 < sampling_rate (MainWindow_init\<lparr>sampling_rate := 0\<rparr>)
                       then real_of_int (sampling_rate (MainWindow_init\<lparr>sampling_rate := 0\<rparr>))
                       else 120)))"
    by (simp add: MainWindow_init_def p54)
  have b: "1 \<in> set (detect_r_peaks (MainWindow_init\<lparr>sampling_rate := 0\<rparr>) [0, 1, 0, 1, 0] 0) \<and>
           3 \<notin> set (detect_r_peaks (MainWindow_init\<lparr>sampling_rate := 0\<rparr>) [0, 1, 0, 1, 0] 0)"
    using thB frB by (rule both)
  show ?thesis using flat e n3 amp mem thr z sr n5 amp5 a b z0 by blast
qed

text \<open>
  Claim C5 as stated takes the spacing from the argument \<open>fs\<close>. At \<open>fs = 0\<close> that
  spacing would be 1, and index 3 of \<open>[0, 1, 0, 1, 0]\<close> meets every condition of the
  claim (index 1 is the only earlier peak, 2 samples back), yet the function, which works
  with the configured 120 samples per second and so with a spacing of 54, returns only
  index 1.
\<close>

theorem nonpositive_fs_uses_configured_rate:
  "detect_r_peaks MainWindow_init [0, 1, 0, 1, 0] 0 = [1] \<and>
   max 1 (py_round (min_r_interval MainWindow_init * 0)) = 1 \<and>
   [0, 1, 0, 1, 0] ! 3 > peak_threshold MainWindow_init [0, 1, 0, 1, 0] \<and>
   [0, 1, 0, 1, 0 :: real] ! 3 > [0, 1, 0, 1, 0] ! (3 - 1) \<and>
   [0, 1, 0, 1, 0 :: real] ! 3 \<ge> [0, 1, 0, 1, 0] ! (3 + 1) \<and>
   int 3 - int 1 \<ge> max 1 (py_round (min_r_interval MainWindow_init * 0))"
proof -
  have R: "detect_r_peaks MainWindow_init [0, 1, 0, 1, 0] 0 = [1]" by code_simp
  have m: "py_round 0 = 0"
    by (simp add: py_round_def)
  have thr: "peak_threshold MainWindow_init [0, 1, 0, 1, 0] = 67 / 100"
    by (simp add: peak_threshold_def MainWindow_init_def py_min_def py_max_def)
  show ?thesis by (simp add: R m thr)
qed

section \<open>Rate estimation\<close>

lemma py_round_near: "\<bar>real_of_int (py_round x) - x\<bar> \<le> 1 / 2"
proof -
  have "real_of_int \<lfloor>x\<rfloor> \<le> x" "x < real_of_int \<lfloor>x\<rfloor> + 1" by linarith+
  then show ?thesis by (auto simp: py_round_def Let_def)
qed

lemma length_peak_intervals: "length (peak_intervals pt) = length pt - 1"
  by (simp add: peak_intervals_def)

lemma bpm_few_peaks: "length pt < 2 \<Longrightarrow> bpm_from_peak_times pt = None"
proof -
  assume "length pt < 2"
  then have "peak_intervals pt = []" using length_peak_intervals[of pt] by simp
  then show ?thesis by (simp add: bpm_from_peak_times_def)
qed

lemma bpm_unfold:
  fixes pt :: "real list"
  defines "deltas \<equiv> peak_intervals pt"
  defines "avg \<equiv> sum_list deltas / real (length deltas)"
  defines "filtered \<equiv> filter (\<lambda>it. 0.5 * avg \<le> it \<and> it \<le> 1.5 * avg) deltas"
  defines "mean \<equiv> sum_list filtered / real (length filtered)"
  assumes "2 \<le> length pt"
  shows "bpm_from_peak_times pt =
           (if filtered = [] \<or> mean \<le> 0 then None
            else if 30 \<le> 60 / mean \<and> 60 / mean \<le> 220 then Some (py_round (60 / mean))
            else None)"
proof -
  have ne: "deltas \<noteq> []" using assms(5) length_peak_intervals[of pt] by (auto simp: deltas_def)
  have "bpm_from_peak_times pt =
          (if deltas = [] then None
           else if filtered = [] then None
           else if mean \<le> 0 then None
           else if 30 \<le> 60 / mean \<and> 60 / mean \<le> 220 then Some (py_round (60 / mean))
           else None)"
    unfolding bpm_from_peak_times_def Let_def deltas_def avg_def filtered_def mean_def
    by (rule refl)
  then show ?thesis using ne by auto
qed

lemma bpm_uniform:
  assumes n: "2 \<le> length pt" and p: "0 < p" and u: "\<forall>d \<in> set (peak_intervals pt). d = p"
  shows "bpm_from_peak_times pt =
           (if 30 \<le> 60 / p \<and> 60 / p \<le> 220 then Some (py_round (60 / p)) else None)"
proof -
  define k where "k = length pt - 1"
  have k: "0 < k" using n by (simp add: k_def)
  have d: "peak_intervals pt = replicate k p"
    using replicate_length_same[of "peak_intervals pt" p] u
    by (simp add: k_def length_peak_intervals)
  have avg: "sum_list (replicate k p) / real (length (replicate k p)) = p"
    using k by (simp add: sum_list_replicate)
  have f: "filter (\<lambda>it. 0.5 * p \<le> it \<and> it \<le> 1.5 * p) (replicate k p) = replicate k p"
    using p by simp
  have ne: "replicate k p \<noteq> []" using k by simp
  show ?thesis
    using bpm_unfold[OF n] p ne unfolding d avg f by simp
qed

lemma peak_intervals_2: "peak_intervals [a, b] = [b - a]"
  by (simp add: peak_intervals_def upt_rec)

lemma peak_intervals_3: "peak_intervals [a, b, c] = [b - a, c - b]"
  by (simp add: peak_intervals_def upt_rec)

text \<open>
  Claim C6. With fewer than 2 detected peaks \<open>_estimate_bpm_from_wave\<close> returns
  \<open>None\<close>; with 2 or more (and a time list covering them) its result is that of the
  rate computation on the peak times. There, with fewer than 2 peak times the result is
  \<open>None\<close>; otherwise the consecutive differences are filtered to those within
  \<open>[0.5 avg, 1.5 avg]\<close> of their unfiltered mean \<open>avg\<close>, the result is \<open>None\<close> when nothing
  is left or the mean of what is left is not positive, and else, with
  \<open>rate = 60 / mean\<close>, a rate is returned if and only if \<open>30 \<le> rate \<le> 220\<close>, and it is
  \<open>rate\<close> rounded to the nearest integer. When all differences equal \<open>p > 0\<close> the rate is
  \<open>60 / p\<close>: a period of 2.4 s (25 per minute) gives \<open>None\<close>, a period within half a
  beat per minute of 72 gives a result within 1 of 72. Times and rates are real numbers
  here.
\<close>

theorem rate_estimation:
  fixes pt voltages rel_xs :: "real list" and w :: MainWindow and p :: real
  defines "deltas \<equiv> peak_intervals pt"
  defines "avg \<equiv> sum_list deltas / real (length deltas)"
  defines "filtered \<equiv> filter (\<lambda>it. 0.5 * avg \<le> it \<and> it \<le> 1.5 * avg) deltas"
  defines "mean \<equiv> sum_list filtered / real (length filtered)"
  defines "rate \<equiv> 60 / mean"
  defines "peaks \<equiv> detect_r_peaks w voltages (real_of_int (sampling_rate w))"
  shows "(length peaks < 2 \<longrightarrow> estimate_bpm_from_wave w voltages rel_xs = Inr None) \<and>
         (0 < sampling_rate w \<and> 2 \<le> length peaks \<and> (\<forall>i \<in> set peaks. i < length rel_xs) \<longrightarrow>
            estimate_bpm_from_wave w voltages rel_xs =
              Inr (bpm_from_peak_times (map (\<lambda>i. rel_xs ! i) peaks))) \<and>
         (length pt < 2 \<longrightarrow> bpm_from_peak_times pt = None) \<and>
         (2 \<le> length pt \<and> (filtered = [] \<or> mean \<le> 0) \<longrightarrow> bpm_from_peak_times pt = None) \<and>
         (2 \<le> length pt \<and> filtered \<noteq> [] \<and> 0 < mean \<longrightarrow>
            ((\<exists>r. bpm_from_peak_times pt = Some r) \<longleftrightarrow> 30 \<le> rate \<and> rate \<le> 220) \<and>
            (\<forall>r. bpm_from_peak_times pt = Some r \<longrightarrow>
               r = py_round rate \<and> \<bar>real_of_int r - rate\<bar> \<le> 1 / 2)) \<and>
         (2 \<le> length pt \<and> 0 < p \<and> (\<forall>d \<in> set deltas. d = p) \<longrightarrow>
            bpm_from_peak_times pt =
              (if 30 \<le> 60 / p \<and> 60 / p \<le> 220 then Some (py_round (60 / p)) else None)) \<and>
         (2 \<le> length pt \<and> 0 < p \<and> (\<forall>d \<in> set deltas. d = p) \<and> \<bar>60 / p - 72\<bar> \<le> 1 / 2 \<longrightarrow>
            (\<exists>r. bpm_from_peak_times pt = Some r \<and> \<bar>r - 72\<bar> \<le> 1))"
proof (intro conjI impI)
  have U: "bpm_from_peak_times pt =
           (if filtered = [] \<or> mean \<le> 0 then None
            else if 30 \<le> 60 / mean \<and> 60 / mean \<le> 220 then Some (py_round (60 / mean))
            else None)" if "2 \<le> length pt"
    unfolding mean_def filtered_def avg_def deltas_def by (rule bpm_unfold[OF that])
  {
  assume "length peaks < 2"
  then show "estimate_bpm_from_wave w voltages rel_xs = Inr None"
    by (auto simp: estimate_bpm_from_wave_def Let_def peaks_def)
next
  assume a: "0 < sampling_rate w \<and> 2 \<le> length peaks \<and> (\<forall>i \<in> set peaks. i < length rel_xs)"
  then have "\<not> length voltages < 3"
    by (auto simp: peaks_def detect_r_peaks_def Let_def)
  then show "estimate_bpm_from_wave w voltages rel_xs =
              Inr (bpm_from_peak_times (map (\<lambda>i. rel_xs ! i) peaks))"
    using a by (auto simp: estimate_bpm_from_wave_def Let_def peaks_def)
next
  assume "length pt < 2"
  then show "bpm_from_peak_times pt = None" by (rule bpm_few_peaks)
next
  assume a: "2 \<le> length pt \<and> (filtered = [] \<or> mean \<le> 0)"
  then have n: "2 \<le> length pt" by blast
  show "bpm_from_peak_times pt = None"
    using a U[OF n] by auto
next
  assume a: "2 \<le> length pt \<and> filtered \<noteq> [] \<and> 0 < mean"
  then have n: "2 \<le> length pt" by blast
  have b: "bpm_from_peak_times pt =
           (if 30 \<le> rate \<and> rate \<le> 220 then Some (py_round rate) else None)"
    using a U[OF n] by (simp add: rate_def)
  show "(\<exists>r. bpm_from_peak_times pt = Some r) \<longleftrightarrow> 30 \<le> rate \<and> rate \<le> 220"
    unfolding b by simp
  show "\<forall>r. bpm_from_peak_times pt = Some r \<longrightarrow>
               r = py_round rate \<and> \<bar>real_of_int r - rate\<bar> \<le> 1 / 2"
    unfolding b using py_round_near[of rate] by auto
next
  assume a: "2 \<le> length pt \<and> 0 < p \<and> (\<forall>d \<in> set deltas. d = p)"
  then show "bpm_from_peak_times pt =
              (if 30 \<le> 60 / p \<and> 60 / p \<le> 220 then Some (py_round (60 / p)) else None)"
    unfolding deltas_def by (intro bpm_uniform) auto
next
  assume a: "2 \<le> length pt \<and> 0 < p \<and> (\<forall>d \<in> set deltas. d = p) \<and> \<bar>60 / p - 72\<bar> \<le> 1 / 2"
  then have "bpm_from_peak_times pt =
              (if 30 \<le> 60 / p \<and> 60 / p \<le> 220 then Some (py_round (60 / p)) else None)"
    unfolding deltas_def by (intro bpm_uniform) auto
  moreover have "30 \<le> 60 / p \<and> 60 / p \<le> 220" using a by linarith
  ultimately have b: "bpm_from_peak_times pt = Some (py_round (60 / p))" by simp
  have "\<bar>real_of_int (py_round (60 / p)) - 72\<bar> \<le> 1"
    using py_round_near[of "60 / p"] a by linarith
  then have "\<bar>py_round (60 / p) - 72\<bar> \<le> 1" by linarith
  then show "\<exists>r. bpm_from_peak_times pt = Some r \<and> \<bar>r - 72\<bar> \<le> 1" using b by blast
  }
qed

theorem rate_estimation_witness:
  "estimate_bpm_from_wave MainWindow_init [] [] = Inr None \<and>
   estimate_bpm_from_wave (MainWindow_init\<lparr>sampling_rate := 4\<rparr>) [0, 1, 0, 1, 0, 1, 0]
       [0, 1 / 4, 2 / 4, 3 / 4, 4 / 4, 5 / 4, 6 / 4] = Inr (bpm_from_peak_times [1 / 4, 3 / 4, 5 / 4]) \<and>
   bpm_from_peak_times [0] = None \<and>
   bpm_from_peak_times [1, 0] = None \<and>
   bpm_from_peak_times [0, 12 / 5, 24 / 5] = None \<and>
   bpm_from_peak_times [0, 5 / 6, 10 / 6] = Some 72 \<and>
   (\<exists>r. bpm_from_peak_times [0, 833 / 1000, 1666 / 1000] = Some r \<and> \<bar>r - 72\<bar> \<le> 1)"
proof -
  have 1: "estimate_bpm_from_wave MainWindow_init [] [] = Inr None"
    using rate_estimation[where w = MainWindow_init and voltages = "[]" and rel_xs = "[]"]
    by (simp add: detect_r_peaks_def)
  have pk: "detect_r_peaks (MainWindow_init\<lparr>sampling_rate := 4\<rparr>) [0, 1, 0, 1, 0, 1, 0]
              (real_of_int (sampling_rate (MainWindow_init\<lparr>sampling_rate := 4\<rparr>))) = [1, 3, 5]"
    by code_simp
  have 2: "estimate_bpm_from_wave (MainWindow_init\<lparr>sampling_rate := 4\<rparr>) [0, 1, 0, 1, 0, 1, 0]
       [0, 1 / 4, 2 / 4, 3 / 4, 4 / 4, 5 / 4, 6 / 4] = Inr (bpm_from_peak_times [1 / 4, 3 / 4, 5 / 4])"
    using rate_estimation[where w = "MainWindow_init\<lparr>sampling_rate := 4\<rparr>"
        and voltages = "[0, 1, 0, 1, 0, 1, 0]"
        and rel_xs = "[0, 1 / 4, 2 / 4, 3 / 4, 4 / 4, 5 / 4, 6 / 4]", THEN conjunct2, THEN conjunct1]
    unfolding pk by simp
  have 3: "bpm_from_peak_times [0] = None"
    using rate_estimation[where pt = "[0]"] by simp
  have 4: "bpm_from_peak_times [1, 0] = None"
    using rate_estimation[where pt = "[1, 0]", THEN conjunct2, THEN conjunct2, THEN conjunct2,
        THEN conjunct1]
    by (simp add: peak_intervals_2)
  have 5: "bpm_from_peak_times [0, 12 / 5, 24 / 5] = None"
    using rate_estimation[where pt = "[0, 12 / 5, 24 / 5]" and p = "12 / 5", THEN conjunct2,
        THEN conjunct2, THEN conjunct2, THEN conjunct2, THEN conjunct2, THEN conjunct1]
    by (simp add: peak_intervals_3)
  have r72: "py_round 72 = 72" by (simp add: py_round_def)
  have 6: "bpm_from_peak_times [0, 5 / 6, 10 / 6] = Some 72"
    using rate_estimation[where pt = "[0, 5 / 6, 10 / 6]" and p = "5 / 6", THEN conjunct2,
        THEN conjunct2, THEN conjunct2, THEN conjunct2, THEN conjunct2, THEN conjunct1]
    by (simp add: peak_intervals_3 r72)
  have 7: "\<exists>r. bpm_from_peak_times [0, 833 / 1000, 1666 / 1000] = Some r \<and> \<bar>r - 72\<bar> \<le> 1"
    using rate_estimation[where pt = "[0, 833 / 1000, 1666 / 1000]" and p = "833 / 1000",
        THEN conjunct2, THEN conjunct2, THEN conjunct2, THEN conjunct2, THEN conjunct2,
        THEN conjunct2]
    by (simp add: peak_intervals_3)
  show ?thesis using 1 2 3 4 5 6 7 by (intro conjI)
qed

section \<open>Time stamps of unframed bytes\<close>

lemma drop_append_short: "k \<le> length as \<Longrightarrow> drop k as @ bs = drop k (as @ bs)"
  by simp

lemma deque_append_fold_bounded:
  "length xs \<le> m \<Longrightarrow>
   foldl (deque_append m) xs ys = drop (length xs + length ys - m) (xs @ ys)"
proof (induction ys arbitrary: xs)
  case Nil
  then show ?case by simp
next
  case (Cons y ys)
  define xs1 where "xs1 = deque_append m xs y"
  have xs1: "xs1 = drop (Suc (length xs) - m) (xs @ [y])"
    by (simp add: xs1_def deque_append_def Let_def)
  have l1: "length xs1 \<le> m" by (simp add: xs1)
  have "foldl (deque_append m) xs (y # ys) = drop (length xs1 + length ys - m) (xs1 @ ys)"
    using Cons.IH[OF l1] by (simp add: xs1_def)
  also have "xs1 @ ys = drop (Suc (length xs) - m) (xs @ y # ys)"
    using drop_append_short[of "Suc (length xs) - m" "xs @ [y]" ys] by (simp add: xs1)
  also have "drop (length xs1 + length ys - m) (drop (Suc (length xs) - m) (xs @ y # ys)) =
             drop (length xs + length (y # ys) - m) (xs @ y # ys)"
  proof -
    have "length xs1 = Suc (length xs) - (Suc (length xs) - m)" by (simp add: xs1)
    then have "length xs1 + length ys - m + (Suc (length xs) - m) = length xs + length (y # ys) - m"
      by simp
    then show ?thesis by (simp only: drop_drop)
  qed
  finally show ?case .
qed

lemma deque_append_fold:
  "ys \<noteq> [] \<Longrightarrow>
   foldl (deque_append m) xs ys = drop (length xs + length ys - m) (xs @ ys)"
proof (cases ys)
  case Nil
  assume "ys \<noteq> []"
  then show ?thesis using Nil by simp
next
  case (Cons y ys')
  define xs1 where "xs1 = deque_append m xs y"
  have xs1: "xs1 = drop (Suc (length xs) - m) (xs @ [y])"
    by (simp add: xs1_def deque_append_def Let_def)
  have l1: "length xs1 \<le> m" by (simp add: xs1)
  have "foldl (deque_append m) xs ys = foldl (deque_append m) xs1 ys'"
    by (simp add: Cons xs1_def)
  also have "\<dots> = drop (length xs1 + length ys' - m) (xs1 @ ys')"
    by (rule deque_append_fold_bounded[OF l1])
  also have "xs1 @ ys' = drop (Suc (length xs) - m) (xs @ ys)"
    using drop_append_short[of "Suc (length xs) - m" "xs @ [y]" ys'] by (simp add: xs1 Cons)
  also have "drop (length xs1 + length ys' - m) (drop (Suc (length xs) - m) (xs @ ys)) =
             drop (length xs + length ys - m) (xs @ ys)"
  proof -
    have "length xs1 = Suc (length xs) - (Suc (length xs) - m)" by (simp add: xs1)
    then have "length xs1 + length ys' - m + (Suc (length xs) - m) = length xs + length ys - m"
      unfolding Cons by simp
    then show ?thesis by (simp only: drop_drop)
  qed
  finally show ?thesis .
qed

lemma on_bytes_loop_effect:
  "on_bytes_loop now base dt es w =
     w\<lparr>plot_x := foldl (deque_append (pts w)) (plot_x w) (map (\<lambda>e. now - (base - real (fst e) * dt)) es),
       plot_y := foldl (deque_append (pts w)) (plot_y w) (map (\<lambda>e. uint (snd e)) es),
       sample_times := sample_times w @ map (\<lambda>e. now - (base - real (fst e) * dt)) es\<rparr>"
proof (induction es arbitrary: w)
  case Nil
  then show ?case by simp
next
  case (Cons e es)
  obtain i byte where e: "e = (i, byte)" by (cases e)
  show ?case unfolding e by (simp add: Cons.IH Let_def)
qed

lemma enumerate_maps:
  "map (\<lambda>e. f (fst e)) (enumerate 0 xs) = map f [0..<length xs]"
  "map (\<lambda>e. g (snd e)) (enumerate 0 xs) = map g xs"
proof -
  have "map (\<lambda>e. f (fst e)) (enumerate 0 xs) = map f (map fst (enumerate 0 xs))"
    by (simp only: map_map comp_def)
  then show "map (\<lambda>e. f (fst e)) (enumerate 0 xs) = map f [0..<length xs]" by (simp only: map_fst_enumerate add_0)
  have "map (\<lambda>e. g (snd e)) (enumerate 0 xs) = map g (map snd (enumerate 0 xs))"
    by (simp only: map_map comp_def)
  then show "map (\<lambda>e. g (snd e)) (enumerate 0 xs) = map g xs" by (simp only: map_snd_enumerate)
qed

text \<open>
  Claim C7. For every non-empty chunk \<open>b\<close> of \<open>n\<close> bytes, received at time \<open>now\<close> with a
  configured sampling rate above 0, \<open>on_bytes\<close> appends to \<open>sample_times\<close> the stamps
  \<open>now - (n - 1 - i) / sampling_rate\<close> for \<open>i = 0, \<dots>, n - 1\<close> in order: the last stamp is
  \<open>now\<close> and each stamp is \<open>1 / sampling_rate\<close> after the one before. The same stamps
  go to \<open>plot_x\<close> and the byte values themselves to \<open>plot_y\<close>, each a deque of at most
  \<open>pts\<close> entries that keeps the newest. Times are real numbers here.
\<close>

theorem on_bytes_stamps:
  fixes w :: MainWindow and now :: real and b :: "byte list"
  assumes ne: "b \<noteq> []" and sr: "0 < sampling_rate w"
  defines "n \<equiv> length b"
  defines "stamps \<equiv> map (\<lambda>i. now - real (n - 1 - i) / real_of_int (sampling_rate w)) [0..<n]"
  shows "sample_times (on_bytes w now b) = sample_times w @ stamps \<and>
         plot_x (on_bytes w now b) = drop (length (plot_x w) + n - pts w) (plot_x w @ stamps) \<and>
         plot_y (on_bytes w now b) = drop (length (plot_y w) + n - pts w) (plot_y w @ map uint b) \<and>
         last stamps = now \<and>
         (\<forall>i. Suc i < n \<longrightarrow> stamps ! Suc i - stamps ! i = 1 / real_of_int (sampling_rate w))"
proof -
  define dt where "dt = 1 / real_of_int (sampling_rate w)"
  define base where "base = real (n - 1) * dt"
  have ob: "on_bytes w now b = on_bytes_loop now base dt (enumerate 0 b) w"
    using ne sr by (simp add: on_bytes_def Let_def dt_def base_def n_def)
  have "now - (base - real i * dt) = now - real (n - 1 - i) / real_of_int (sampling_rate w)"
    if "i < n" for i
  proof -
    have "real (n - 1 - i) = real (n - 1) - real i" using that by (simp add: of_nat_diff)
    then have "base - real i * dt = real (n - 1 - i) * dt"
      by (simp only: base_def left_diff_distrib)
    then show ?thesis by (simp add: dt_def)
  qed
  then have st: "map (\<lambda>i. now - (base - real i * dt)) [0..<n] = stamps"
    by (simp add: stamps_def)
  have ts: "map (\<lambda>e. now - (base - real (fst e) * dt)) (enumerate 0 b) = stamps"
    using enumerate_maps(1)[of "\<lambda>i. now - (base - real i * dt)" b] st by (simp add: n_def)
  have ys: "map (\<lambda>e. uint (snd e)) (enumerate 0 b) = map uint b"
    by (rule enumerate_maps(2))
  have ls: "length stamps = n" by (simp add: stamps_def)
  have n0: "0 < n" using ne by (simp add: n_def)
  then have "stamps \<noteq> []" using ls by auto
  have 1: "sample_times (on_bytes w now b) = sample_times w @ stamps"
    by (simp add: ob on_bytes_loop_effect ts)
  have 2: "plot_x (on_bytes w now b) = drop (length (plot_x w) + n - pts w) (plot_x w @ stamps)"
    using \<open>stamps \<noteq> []\<close> by (simp add: ob on_bytes_loop_effect ts deque_append_fold ls)
  have 3: "plot_y (on_bytes w now b) = drop (length (plot_y w) + n - pts w) (plot_y w @ map uint b)"
    using ne by (simp add: ob on_bytes_loop_effect ys deque_append_fold n_def)
  have "last stamps = stamps ! (n - 1)" using \<open>stamps \<noteq> []\<close> ls by (simp add: last_conv_nth)
  also have "\<dots> = now" using n0 by (simp add: stamps_def)
  finally have 4: "last stamps = now" .
  have 5: "stamps ! Suc i - stamps ! i = 1 / real_of_int (sampling_rate w)" if "Suc i < n" for i
  proof -
    have si: "stamps ! k = now - real (n - 1 - k) / real_of_int (sampling_rate w)" if "k < n" for k
      using that by (simp add: stamps_def)
    have "real (n - 1 - i) = real (n - 1 - Suc i) + 1" using that by (simp add: of_nat_diff)
    then have d: "real (n - 1 - i) / real_of_int (sampling_rate w) =
                  real (n - 1 - Suc i) / real_of_int (sampling_rate w) + 1 / real_of_int (sampling_rate w)"
      by (simp only: add_divide_distrib)
    have "stamps ! Suc i - stamps ! i =
          real (n - 1 - i) / real_of_int (sampling_rate w) -
          real (n - 1 - Suc i) / real_of_int (sampling_rate w)"
      using that by (simp only: si[OF that] si[OF Suc_lessD[OF that]])
    also have "\<dots> = 1 / real_of_int (sampling_rate w)" by (simp only: d)
    finally show ?thesis .
  qed
  show ?thesis using 1 2 3 4 5 by blast
qed

theorem on_bytes_stamps_witness:
  "[7, 8, 9 :: byte] \<noteq> [] \<and> 0 < sampling_rate MainWindow_init \<and>
   sample_times (on_bytes MainWindow_init 100 [7, 8, 9]) = [100 - 2 / 120, 100 - 1 / 120, 100] \<and>
   plot_y (on_bytes MainWindow_init 100 [7, 8, 9]) = [7, 8, 9]"
proof -
  have ne: "[7, 8, 9 :: byte] \<noteq> []" by simp
  have sr: "0 < sampling_rate MainWindow_init" by (simp add: MainWindow_init_def)
  from on_bytes_stamps[OF ne sr, of 100] ne sr show ?thesis
    by (simp add: MainWindow_init_def upt_rec)
qed

end
